theory Spec2Isabelle
  imports Main "HOL-Library.Word" "HOL-Library.AList"
begin

unbundle bit_operations_syntax

section \<open>Shared types\<close>

text \<open>
  \<open>uint32_t\<close> counters are 32-bit words, \<open>size_t\<close> and \<open>uint64_t\<close> hash values are
  64-bit words. A constructor either throws \<open>std::invalid_argument\<close> or yields
  the object, so it returns \<open>error + state\<close>. An unchecked \<open>operator[]\<close> outside
  the vector and a remainder by zero are undefined behaviour in the source; the
  operations that contain one return \<open>None\<close> there. A method keeps its name behind
  the prefix of its class: \<open>lru\<close> for \<open>LRUCache\<close>, \<open>cms\<close> for \<open>CountMinSketch\<close>,
  \<open>tl\<close> for \<open>TinyLFUAdmittingLRU\<close>, \<open>sw\<close> for \<open>ShardedWTinyLFU\<close>, \<open>mp\<close> for
  \<open>MarkovPredictor\<close> and \<open>p\<close> for \<open>PredictiveShardedCache\<close>. Locks are not
  modelled: every method runs to completion on the state it is given.
\<close>

type_synonym u32 = "32 word"
type_synonym u64 = "64 word"

datatype error = InvalidArgument

section \<open>LRUCache.hpp\<close>

text \<open>
  The members \<open>items_\<close>, \<open>map_\<close> and \<open>capacity_\<close> are the fields \<open>lru_items\<close>,
  \<open>lru_map\<close> and \<open>lru_cap\<close>. \<open>items_\<close> is the recency list, most recent first.
  \<open>map_\<close> maps a key to the iterator of its node; the model keeps its key set,
  and the iterator stored under a key is the node of the list that carries the key.
\<close>

record ('k, 'v) LRUCache =
  lru_items :: "('k \<times> 'v) list"
  lru_map :: "'k set"
  lru_cap :: nat

definition LRUCache :: "nat \<Rightarrow> error + ('k, 'v) LRUCache" where
  "LRUCache capacity = Inr \<lparr>lru_items = [], lru_map = {}, lru_cap = capacity\<rparr>"

text \<open>\<open>items_.erase(it)\<close> for the iterator stored under \<open>key\<close>.\<close>

fun unlink :: "'k \<Rightarrow> ('k \<times> 'v) list \<Rightarrow> ('k \<times> 'v) list" where
  "unlink key [] = []"
| "unlink key (n # ns) = (if fst n = key then ns else n # unlink key ns)"

text \<open>\<open>items_.splice(items_.begin(), items_, it)\<close> for the iterator stored under \<open>key\<close>.\<close>

definition splice_front :: "'k \<Rightarrow> ('k \<times> 'v) list \<Rightarrow> ('k \<times> 'v) list" where
  "splice_front key items =
     (case map_of items key of None \<Rightarrow> items | Some v \<Rightarrow> (key, v) # unlink key items)"

definition lru_get :: "'k \<Rightarrow> ('k, 'v) LRUCache \<Rightarrow> 'v option \<times> ('k, 'v) LRUCache" where
  "lru_get key c =
     (if key \<notin> lru_map c then (None, c)
      else (map_of (lru_items c) key, c\<lparr>lru_items := splice_front key (lru_items c)\<rparr>))"

definition lru_put :: "'k \<Rightarrow> 'v \<Rightarrow> ('k, 'v) LRUCache \<Rightarrow> ('k, 'v) LRUCache" where
  "lru_put key value c =
     (if key \<in> lru_map c then c\<lparr>lru_items := (key, value) # unlink key (lru_items c)\<rparr>
      else
        let c1 = c\<lparr>lru_items := (key, value) # lru_items c, lru_map := insert key (lru_map c)\<rparr>
        in if card (lru_map c1) > lru_cap c1
           then let oldKey = fst (last (lru_items c1))
                in c1\<lparr>lru_map := lru_map c1 - {oldKey}, lru_items := butlast (lru_items c1)\<rparr>
           else c1)"

definition lru_erase :: "'k \<Rightarrow> ('k, 'v) LRUCache \<Rightarrow> bool \<times> ('k, 'v) LRUCache" where
  "lru_erase key c =
     (if key \<notin> lru_map c then (False, c)
      else (True, c\<lparr>lru_items := unlink key (lru_items c), lru_map := lru_map c - {key}\<rparr>))"

definition lru_contains :: "'k \<Rightarrow> ('k, 'v) LRUCache \<Rightarrow> bool" where
  "lru_contains key c = (key \<in> lru_map c)"

definition lru_size :: "('k, 'v) LRUCache \<Rightarrow> nat" where
  "lru_size c = card (lru_map c)"

definition lru_capacity :: "('k, 'v) LRUCache \<Rightarrow> nat" where
  "lru_capacity c = lru_cap c"

definition peek_lru_key :: "('k, 'v) LRUCache \<Rightarrow> 'k option" where
  "peek_lru_key c = (if lru_items c = [] then None else Some (fst (last (lru_items c))))"

text \<open>A sequence of calls of the mutating methods.\<close>

datatype ('k, 'v) lru_op = Get 'k | Put 'k 'v | Erase 'k

fun lru_step :: "('k, 'v) lru_op \<Rightarrow> ('k, 'v) LRUCache \<Rightarrow> ('k, 'v) LRUCache" where
  "lru_step (Get k) c = snd (lru_get k c)"
| "lru_step (Put k v) c = lru_put k v c"
| "lru_step (Erase k) c = snd (lru_erase k c)"

definition lru_run :: "('k, 'v) lru_op list \<Rightarrow> ('k, 'v) LRUCache \<Rightarrow> ('k, 'v) LRUCache" where
  "lru_run ops c = fold lru_step ops c"

text \<open>
  The representation invariant of the class: \<open>lru_map\<close> indexes exactly the nodes
  of \<open>lru_items\<close>, one node per key.
\<close>

definition lru_inv :: "('k, 'v) LRUCache \<Rightarrow> bool" where
  "lru_inv c = (lru_map c = fst ` set (lru_items c) \<and> distinct (map fst (lru_items c)))"

section \<open>CountMinSketch.hpp\<close>

text \<open>
  The members \<open>width_\<close>, \<open>depth_\<close> and \<open>rows_\<close> are the fields \<open>cms_width\<close>,
  \<open>cms_depth\<close> and \<open>cms_rows\<close>. \<open>std::hash<Key>\<close> is a parameter \<open>hash\<close> of
  every function that hashes a key.
\<close>

record CountMinSketch =
  cms_width :: u64
  cms_depth :: u64
  cms_rows :: "u32 list list"

definition CountMinSketch :: "u64 \<Rightarrow> u64 \<Rightarrow> error + CountMinSketch" where
  "CountMinSketch width depth =
     Inr \<lparr>cms_width = width, cms_depth = depth,
          cms_rows = replicate (unat depth) (replicate (unat width) 0)\<rparr>"

definition UINT32_MAX :: u32 where
  "UINT32_MAX = 0xFFFFFFFF"

definition seeds :: "u64 list" where
  "seeds = [0x9e3779b185ebca87, 0xc2b2ae3d27d4eb4f,
            0x165667b19e3779f9, 0xd6e8feb86659fd93,
            0x94d049bb133111eb, 0x2545f4914f6cdd1d,
            0x60642e2a34326f15, 0x9e3779b97f4a7c15]"

definition cms_index :: "('k \<Rightarrow> u64) \<Rightarrow> CountMinSketch \<Rightarrow> 'k \<Rightarrow> nat \<Rightarrow> nat" where
  "cms_index hash c k i =
     (let h = hash k;
          h' = h XOR (seeds ! (i mod 8) + 0x9e3779b97f4a7c15 + push_bit 6 h + drop_bit 2 h)
      in unat (h' AND (cms_width c - 1)))"

text \<open>\<open>if (c != UINT32_MAX) ++c;\<close>\<close>

definition sat_inc :: "u32 \<Rightarrow> u32" where
  "sat_inc c = (if c \<noteq> UINT32_MAX then c + 1 else c)"

text \<open>The loop of \<open>add\<close> over the rows \<open>is\<close> still to visit.\<close>

fun add_loop :: "('k \<Rightarrow> u64) \<Rightarrow> 'k \<Rightarrow> nat list \<Rightarrow> CountMinSketch \<Rightarrow> CountMinSketch option" where
  "add_loop hash k [] c = Some c"
| "add_loop hash k (i # is) c =
     (let idx = cms_index hash c k i
      in if i < length (cms_rows c) \<and> idx < length (cms_rows c ! i)
         then add_loop hash k is
                (c\<lparr>cms_rows := (cms_rows c)[i := (cms_rows c ! i)[idx := sat_inc (cms_rows c ! i ! idx)]]\<rparr>)
         else None)"

definition cms_add :: "('k \<Rightarrow> u64) \<Rightarrow> 'k \<Rightarrow> CountMinSketch \<Rightarrow> CountMinSketch option" where
  "cms_add hash k c = add_loop hash k [0..<unat (cms_depth c)] c"

text \<open>The loop of \<open>estimate\<close>, with the running minimum \<open>m\<close>.\<close>

fun estimate_loop :: "('k \<Rightarrow> u64) \<Rightarrow> 'k \<Rightarrow> nat list \<Rightarrow> CountMinSketch \<Rightarrow> u32 \<Rightarrow> u32 option" where
  "estimate_loop hash k [] c m = Some m"
| "estimate_loop hash k (i # is) c m =
     (let idx = cms_index hash c k i
      in if i < length (cms_rows c) \<and> idx < length (cms_rows c ! i)
         then estimate_loop hash k is c (min m (cms_rows c ! i ! idx))
         else None)"

definition cms_estimate :: "('k \<Rightarrow> u64) \<Rightarrow> 'k \<Rightarrow> CountMinSketch \<Rightarrow> u32 option" where
  "cms_estimate hash k c =
     (case estimate_loop hash k [0..<unat (cms_depth c)] c UINT32_MAX of
        None \<Rightarrow> None
      | Some m \<Rightarrow> Some (if m = UINT32_MAX then 0 else m))"

definition cms_decay_half :: "CountMinSketch \<Rightarrow> CountMinSketch" where
  "cms_decay_half c = c\<lparr>cms_rows := map (map (drop_bit 1)) (cms_rows c)\<rparr>"

text \<open>A sequence of \<open>add\<close> calls, one per key of the list.\<close>

fun cms_adds :: "('k \<Rightarrow> u64) \<Rightarrow> 'k list \<Rightarrow> CountMinSketch \<Rightarrow> CountMinSketch option" where
  "cms_adds hash [] c = Some c"
| "cms_adds hash (k # ks) c =
     (case cms_add hash k c of None \<Rightarrow> None | Some c' \<Rightarrow> cms_adds hash ks c')"

text \<open>
  The shape the constructor establishes: \<open>depth_\<close> rows of \<open>width_\<close> counters
  each, and at least one column.
\<close>

definition cms_ok :: "CountMinSketch \<Rightarrow> bool" where
  "cms_ok c = (cms_width c \<noteq> 0 \<and> length (cms_rows c) = unat (cms_depth c)
               \<and> list_all (\<lambda>row. length row = unat (cms_width c)) (cms_rows c))"

text \<open>What one iteration of the loop of \<open>add\<close> does to row \<open>i\<close>.\<close>

definition bump_row :: "('k \<Rightarrow> u64) \<Rightarrow> CountMinSketch \<Rightarrow> 'k \<Rightarrow> nat \<Rightarrow> u32 list \<Rightarrow> u32 list" where
  "bump_row hash c k i row = row[cms_index hash c k i := sat_inc (row ! cms_index hash c k i)]"

text \<open>The counter \<open>rows_[i][index(k, i)]\<close> that row \<open>i\<close> selects for \<open>k\<close>.\<close>

definition cell :: "('k \<Rightarrow> u64) \<Rightarrow> CountMinSketch \<Rightarrow> 'k \<Rightarrow> nat \<Rightarrow> u32" where
  "cell hash c k i = cms_rows c ! i ! cms_index hash c k i"

text \<open>How many keys of \<open>ks\<close> row \<open>i\<close> sends to column \<open>j\<close>.\<close>

definition hits :: "('k \<Rightarrow> u64) \<Rightarrow> CountMinSketch \<Rightarrow> nat \<Rightarrow> nat \<Rightarrow> 'k list \<Rightarrow> nat" where
  "hits hash c i j ks = length (filter (\<lambda>k. cms_index hash c k i = j) ks)"

section \<open>TinyLFUAdmittingLRU.hpp\<close>

text \<open>The members \<open>lru_\<close> and \<open>cms_\<close> are the fields \<open>tl_lru\<close> and \<open>tl_cms\<close>.\<close>

record ('k, 'v) TinyLFUAdmittingLRU =
  tl_lru :: "('k, 'v) LRUCache"
  tl_cms :: CountMinSketch

definition TinyLFUAdmittingLRU :: "nat \<Rightarrow> u64 \<Rightarrow> u64 \<Rightarrow> error + ('k, 'v) TinyLFUAdmittingLRU" where
  "TinyLFUAdmittingLRU capacity cms_w cms_d =
     (case LRUCache capacity of
        Inl e \<Rightarrow> Inl e
      | Inr l \<Rightarrow>
          (case CountMinSketch cms_w cms_d of
             Inl e \<Rightarrow> Inl e
           | Inr s \<Rightarrow> Inr \<lparr>tl_lru = l, tl_cms = s\<rparr>))"

definition tl_get ::
  "('k \<Rightarrow> u64) \<Rightarrow> 'k \<Rightarrow> ('k, 'v) TinyLFUAdmittingLRU
   \<Rightarrow> ('v option \<times> ('k, 'v) TinyLFUAdmittingLRU) option" where
  "tl_get hash key s =
     (case cms_add hash key (tl_cms s) of
        None \<Rightarrow> None
      | Some cms1 \<Rightarrow>
          Some (fst (lru_get key (tl_lru s)),
                \<lparr>tl_lru = snd (lru_get key (tl_lru s)), tl_cms = cms1\<rparr>))"

definition tl_put ::
  "('k \<Rightarrow> u64) \<Rightarrow> 'k \<Rightarrow> 'v \<Rightarrow> ('k, 'v) TinyLFUAdmittingLRU
   \<Rightarrow> ('k, 'v) TinyLFUAdmittingLRU option" where
  "tl_put hash key value s =
     (case cms_add hash key (tl_cms s) of
        None \<Rightarrow> None
      | Some cms1 \<Rightarrow>
          if lru_contains key (tl_lru s)
          then Some \<lparr>tl_lru = lru_put key value (tl_lru s), tl_cms = cms1\<rparr>
          else if lru_size (tl_lru s) < lru_capacity (tl_lru s)
          then Some \<lparr>tl_lru = lru_put key value (tl_lru s), tl_cms = cms1\<rparr>
          else
            (case peek_lru_key (tl_lru s) of
               None \<Rightarrow> Some \<lparr>tl_lru = lru_put key value (tl_lru s), tl_cms = cms1\<rparr>
             | Some victim \<Rightarrow>
                 (case cms_estimate hash key cms1 of
                    None \<Rightarrow> None
                  | Some newEst \<Rightarrow>
                      (case cms_estimate hash victim cms1 of
                         None \<Rightarrow> None
                       | Some victimEst \<Rightarrow>
                           if newEst \<ge> victimEst
                           then Some \<lparr>tl_lru = lru_put key value (snd (lru_erase victim (tl_lru s))),
                                      tl_cms = cms1\<rparr>
                           else Some \<lparr>tl_lru = tl_lru s, tl_cms = cms1\<rparr>))))"

definition tl_erase :: "'k \<Rightarrow> ('k, 'v) TinyLFUAdmittingLRU \<Rightarrow> bool \<times> ('k, 'v) TinyLFUAdmittingLRU" where
  "tl_erase key s = (fst (lru_erase key (tl_lru s)), s\<lparr>tl_lru := snd (lru_erase key (tl_lru s))\<rparr>)"

definition tl_decay :: "('k, 'v) TinyLFUAdmittingLRU \<Rightarrow> ('k, 'v) TinyLFUAdmittingLRU" where
  "tl_decay s = s\<lparr>tl_cms := cms_decay_half (tl_cms s)\<rparr>"

section \<open>ShardedLRU.hpp and ShardedWTinyLFU.hpp\<close>

text \<open>
  Both constructors compute \<open>base + (i == num_shards - 1 ? extra : 0)\<close> for shard
  \<open>i\<close> and construct the shards in index order; a constructor that throws ends
  the loop. The mutexes are not part of the sequential model.
\<close>

definition shard_cap :: "nat \<Rightarrow> nat \<Rightarrow> nat \<Rightarrow> nat" where
  "shard_cap capacity num_shards i =
     (let base = capacity div num_shards; extra = capacity mod num_shards
      in base + (if i = num_shards - 1 then extra else 0))"

fun build_shards :: "(nat \<Rightarrow> error + 's) \<Rightarrow> nat list \<Rightarrow> error + 's list" where
  "build_shards mk [] = Inr []"
| "build_shards mk (cap # caps) =
     (case mk cap of
        Inl e \<Rightarrow> Inl e
      | Inr sh \<Rightarrow> (case build_shards mk caps of Inl e \<Rightarrow> Inl e | Inr shs \<Rightarrow> Inr (sh # shs)))"

record ('k, 'v) ShardedLRU =
  sl_shards :: "('k, 'v) LRUCache list"

definition ShardedLRU :: "nat \<Rightarrow> nat \<Rightarrow> error + ('k, 'v) ShardedLRU" where
  "ShardedLRU capacity num_shards =
     (if num_shards = 0 then Inl InvalidArgument
      else case build_shards LRUCache (map (shard_cap capacity num_shards) [0..<num_shards]) of
             Inl e \<Rightarrow> Inl e
           | Inr shs \<Rightarrow> Inr \<lparr>sl_shards = shs\<rparr>)"

record ('k, 'v) ShardedWTinyLFU =
  sw_shards :: "('k, 'v) TinyLFUAdmittingLRU list"

definition ShardedWTinyLFU :: "nat \<Rightarrow> nat \<Rightarrow> u64 \<Rightarrow> u64 \<Rightarrow> error + ('k, 'v) ShardedWTinyLFU" where
  "ShardedWTinyLFU capacity num_shards cms_w cms_d =
     (if num_shards = 0 then Inl InvalidArgument
      else case build_shards (\<lambda>cap. TinyLFUAdmittingLRU cap cms_w cms_d)
                  (map (shard_cap capacity num_shards) [0..<num_shards]) of
             Inl e \<Rightarrow> Inl e
           | Inr shs \<Rightarrow> Inr \<lparr>sw_shards = shs\<rparr>)"

text \<open>\<open>hasher_(key) % shards_.size()\<close>; the remainder by zero is undefined.\<close>

definition sw_idx :: "('k \<Rightarrow> u64) \<Rightarrow> 'k \<Rightarrow> ('k, 'v) ShardedWTinyLFU \<Rightarrow> nat option" where
  "sw_idx hash key s =
     (if sw_shards s = [] then None else Some (unat (hash key) mod length (sw_shards s)))"

definition sw_get ::
  "('k \<Rightarrow> u64) \<Rightarrow> 'k \<Rightarrow> ('k, 'v) ShardedWTinyLFU \<Rightarrow> ('v option \<times> ('k, 'v) ShardedWTinyLFU) option" where
  "sw_get hash key s =
     (case sw_idx hash key s of
        None \<Rightarrow> None
      | Some i \<Rightarrow>
          (case tl_get hash key (sw_shards s ! i) of
             None \<Rightarrow> None
           | Some (r, sh) \<Rightarrow> Some (r, s\<lparr>sw_shards := (sw_shards s)[i := sh]\<rparr>)))"

definition sw_put ::
  "('k \<Rightarrow> u64) \<Rightarrow> 'k \<Rightarrow> 'v \<Rightarrow> ('k, 'v) ShardedWTinyLFU \<Rightarrow> ('k, 'v) ShardedWTinyLFU option" where
  "sw_put hash key value s =
     (case sw_idx hash key s of
        None \<Rightarrow> None
      | Some i \<Rightarrow>
          (case tl_put hash key value (sw_shards s ! i) of
             None \<Rightarrow> None
           | Some sh \<Rightarrow> Some (s\<lparr>sw_shards := (sw_shards s)[i := sh]\<rparr>)))"

text \<open>The shape the sharded constructor establishes: at least one shard, every sketch well-shaped.\<close>

definition sw_ok :: "('k, 'v) ShardedWTinyLFU \<Rightarrow> bool" where
  "sw_ok b = (sw_shards b \<noteq> [] \<and> list_all (\<lambda>sh. cms_ok (tl_cms sh)) (sw_shards b))"

section \<open>MarkovPredictor.hpp\<close>

text \<open>
  The members \<open>trans_\<close> and \<open>totals_\<close> are the fields \<open>mp_trans\<close> and \<open>mp_totals\<close>.
  An \<open>unordered_map\<close> is an association list with one entry per key; \<open>m[k]\<close>
  on an absent key inserts a value-initialised entry.
\<close>

record 'k MarkovPredictor =
  mp_trans :: "('k \<times> ('k \<times> u32) list) list"
  mp_totals :: "('k \<times> u32) list"

definition MarkovPredictor :: "'k MarkovPredictor" where
  "MarkovPredictor = \<lparr>mp_trans = [], mp_totals = []\<rparr>"

definition observe :: "'k \<Rightarrow> 'k \<Rightarrow> 'k MarkovPredictor \<Rightarrow> 'k MarkovPredictor" where
  "observe prev cur s =
     (let m = (case map_of (mp_trans s) prev of None \<Rightarrow> [] | Some m \<Rightarrow> m);
          cnt = (case map_of m cur of None \<Rightarrow> 0 | Some c \<Rightarrow> c);
          tot = (case map_of (mp_totals s) prev of None \<Rightarrow> 0 | Some t \<Rightarrow> t)
      in \<lparr>mp_trans = AList.update prev (AList.update cur (cnt + 1) m) (mp_trans s),
          mp_totals = AList.update prev (tot + 1) (mp_totals s)\<rparr>)"

text \<open>\<open>it->second >>= 1; if (it->second == 0) it = mp.erase(it);\<close> over a whole map.\<close>

definition halve_counts :: "('k \<times> u32) list \<Rightarrow> ('k \<times> u32) list" where
  "halve_counts mp = filter (\<lambda>(k, c). c \<noteq> 0) (map (\<lambda>(k, c). (k, drop_bit 1 c)) mp)"

definition mp_decay_half :: "'k MarkovPredictor \<Rightarrow> 'k MarkovPredictor" where
  "mp_decay_half s =
     \<lparr>mp_trans = map (\<lambda>(k, mp). (k, halve_counts mp)) (mp_trans s),
      mp_totals = halve_counts (mp_totals s)\<rparr>"

text \<open>The stored count \<open>c[p][k]\<close> and total \<open>t[p]\<close>; an absent entry reads as 0.\<close>

definition count_of :: "'k MarkovPredictor \<Rightarrow> 'k \<Rightarrow> 'k \<Rightarrow> u32" where
  "count_of s p k =
     (case map_of (mp_trans s) p of
        None \<Rightarrow> 0
      | Some m \<Rightarrow> (case map_of m k of None \<Rightarrow> 0 | Some c \<Rightarrow> c))"

definition total_of :: "'k MarkovPredictor \<Rightarrow> 'k \<Rightarrow> u32" where
  "total_of s p = (case map_of (mp_totals s) p of None \<Rightarrow> 0 | Some t \<Rightarrow> t)"

text \<open>The sum over all successors of the stored counts of \<open>p\<close>, as a natural number.\<close>

definition sum_counts :: "'k MarkovPredictor \<Rightarrow> 'k \<Rightarrow> nat" where
  "sum_counts s p =
     (case map_of (mp_trans s) p of
        None \<Rightarrow> 0
      | Some m \<Rightarrow> sum_list (map (\<lambda>(k, c). unat c) m))"

datatype 'k mp_op = Observe 'k 'k | Decay

fun mp_step :: "'k mp_op \<Rightarrow> 'k MarkovPredictor \<Rightarrow> 'k MarkovPredictor" where
  "mp_step (Observe p k) s = observe p k s"
| "mp_step Decay s = mp_decay_half s"

definition mp_run :: "'k mp_op list \<Rightarrow> 'k MarkovPredictor \<Rightarrow> 'k MarkovPredictor" where
  "mp_run ops s = fold mp_step ops s"

fun is_observe :: "'k mp_op \<Rightarrow> bool" where
  "is_observe (Observe p k) = True"
| "is_observe Decay = False"

text \<open>
  Two properties of a predictor state, for the proofs: with \<open>n\<close> an upper bound
  on the totals, the counts of a predecessor add up to at most its total and
  \<open>totals_\<close> has one entry per key; and the counts add up to exactly the total.
\<close>

definition mp_inv :: "'k MarkovPredictor \<Rightarrow> nat \<Rightarrow> bool" where
  "mp_inv s n = (distinct (map fst (mp_totals s))
                 \<and> (\<forall>p. sum_counts s p \<le> unat (total_of s p) \<and> unat (total_of s p) \<le> n))"

definition mp_exact :: "'k MarkovPredictor \<Rightarrow> bool" where
  "mp_exact s = (\<forall>p. sum_counts s p = unat (total_of s p))"

section \<open>PredictiveShardedCache.hpp\<close>

text \<open>
  The members \<open>base_\<close>, \<open>opts_\<close>, \<open>preds_\<close> and \<open>prev_\<close> are the fields \<open>p_base\<close>,
  \<open>p_opts\<close>, \<open>p_preds\<close> and \<open>p_prev\<close>. \<open>topk_next\<close> divides in \<open>double\<close> and sorts
  the candidates in the iteration order of an \<open>unordered_map\<close>; the wrapper
  takes it as a parameter \<open>topk_next\<close>, with the threshold of type \<open>'p\<close>.
  \<open>Value{}\<close> is the parameter \<open>dflt\<close>.
\<close>

record 'p Options =
  opt_shards :: nat
  opt_prefetch_topk :: nat
  opt_min_trans_count :: u32
  opt_min_trans_prob :: 'p
  opt_enable_prefetch :: bool

record ('k, 'v, 'p) PredictiveShardedCache =
  p_base :: "('k, 'v) ShardedWTinyLFU"
  p_opts :: "'p Options"
  p_preds :: "'k MarkovPredictor list"
  p_prev :: "'k option list"

definition PredictiveShardedCache ::
  "nat \<Rightarrow> 'p Options \<Rightarrow> error + ('k, 'v, 'p) PredictiveShardedCache" where
  "PredictiveShardedCache capacity opt =
     (case ShardedWTinyLFU capacity (opt_shards opt) 4096 4 of
        Inl e \<Rightarrow> Inl e
      | Inr b \<Rightarrow>
          Inr \<lparr>p_base = b, p_opts = opt,
               p_preds = replicate (opt_shards opt) MarkovPredictor,
               p_prev = replicate (opt_shards opt) None\<rparr>)"

text \<open>\<open>hasher_(k) % opts_.shards\<close>\<close>

definition shidx :: "('k \<Rightarrow> u64) \<Rightarrow> 'k \<Rightarrow> ('k, 'v, 'p) PredictiveShardedCache \<Rightarrow> nat option" where
  "shidx hash k s =
     (if opt_shards (p_opts s) = 0 then None
      else Some (unat (hash k) mod opt_shards (p_opts s)))"

text \<open>The prefetch loop of \<open>get\<close> over the candidates.\<close>

fun prefetch ::
  "('k \<Rightarrow> u64) \<Rightarrow> 'v \<Rightarrow> 'k list \<Rightarrow> ('k, 'v) ShardedWTinyLFU \<Rightarrow> ('k, 'v) ShardedWTinyLFU option" where
  "prefetch hash dflt [] b = Some b"
| "prefetch hash dflt (nxt # cand) b =
     (case sw_get hash nxt b of
        None \<Rightarrow> None
      | Some (r, b1) \<Rightarrow>
          (case r of
             None \<Rightarrow>
               (case sw_put hash nxt dflt b1 of
                  None \<Rightarrow> None
                | Some b2 \<Rightarrow> prefetch hash dflt cand b2)
           | Some v \<Rightarrow> prefetch hash dflt cand b1))"

definition p_get ::
  "('k \<Rightarrow> u64) \<Rightarrow> ('k MarkovPredictor \<Rightarrow> 'k \<Rightarrow> nat \<Rightarrow> u32 \<Rightarrow> 'p \<Rightarrow> 'k list) \<Rightarrow> 'v \<Rightarrow> 'k
   \<Rightarrow> ('k, 'v, 'p) PredictiveShardedCache
   \<Rightarrow> ('v option \<times> ('k, 'v, 'p) PredictiveShardedCache) option" where
  "p_get hash topk_next dflt key s =
     (case shidx hash key s of
        None \<Rightarrow> None
      | Some i \<Rightarrow>
          if \<not> (i < length (p_prev s) \<and> i < length (p_preds s)) then None
          else
            let preds1 = (case p_prev s ! i of
                            None \<Rightarrow> p_preds s
                          | Some p \<Rightarrow> (p_preds s)[i := observe p key (p_preds s ! i)]);
                prev1 = (p_prev s)[i := Some key]
            in (case sw_get hash key (p_base s) of
                  None \<Rightarrow> None
                | Some (result, b1) \<Rightarrow>
                    if opt_enable_prefetch (p_opts s)
                    then (case prefetch hash dflt
                                 (topk_next (preds1 ! i) key (opt_prefetch_topk (p_opts s))
                                    (opt_min_trans_count (p_opts s)) (opt_min_trans_prob (p_opts s)))
                                 b1 of
                            None \<Rightarrow> None
                          | Some b2 \<Rightarrow>
                              Some (result, s\<lparr>p_base := b2, p_preds := preds1, p_prev := prev1\<rparr>))
                    else Some (result, s\<lparr>p_base := b1, p_preds := preds1, p_prev := prev1\<rparr>)))"

definition p_put ::
  "('k \<Rightarrow> u64) \<Rightarrow> 'k \<Rightarrow> 'v \<Rightarrow> ('k, 'v, 'p) PredictiveShardedCache
   \<Rightarrow> ('k, 'v, 'p) PredictiveShardedCache option" where
  "p_put hash key value s =
     (case shidx hash key s of
        None \<Rightarrow> None
      | Some i \<Rightarrow>
          (case sw_put hash key value (p_base s) of
             None \<Rightarrow> None
           | Some b1 \<Rightarrow>
               if i < length (p_prev s)
               then Some (s\<lparr>p_base := b1, p_prev := (p_prev s)[i := Some key]\<rparr>)
               else None))"

definition decay_models :: "('k, 'v, 'p) PredictiveShardedCache \<Rightarrow> ('k, 'v, 'p) PredictiveShardedCache" where
  "decay_models s = s\<lparr>p_preds := map mp_decay_half (p_preds s)\<rparr>"

text \<open>
  The shape the constructor establishes: one predictor and one last-key slot
  per shard, as many underlying shards, and every shard's sketch well-shaped.
\<close>

definition p_ok :: "('k, 'v, 'p) PredictiveShardedCache \<Rightarrow> bool" where
  "p_ok s = (opt_shards (p_opts s) \<noteq> 0
             \<and> length (p_preds s) = opt_shards (p_opts s)
             \<and> length (p_prev s) = opt_shards (p_opts s)
             \<and> length (sw_shards (p_base s)) = opt_shards (p_opts s)
             \<and> list_all (\<lambda>sh. cms_ok (tl_cms sh)) (sw_shards (p_base s)))"


section \<open>Example states\<close>

text \<open>
  A shard of capacity 2 with a 16 by 2 sketch and the identity hash, after
  \<open>put(1, "a")\<close>, \<open>get(1)\<close>, \<open>get(1)\<close>, \<open>put(2, "b")\<close>, \<open>get(2)\<close>.
\<close>

definition example_tl :: "(u64, string) TinyLFUAdmittingLRU" where
  "example_tl =
     \<lparr>tl_lru = \<lparr>lru_items = [(2, ''b''), (1, ''a'')], lru_map = {2, 1}, lru_cap = 2\<rparr>,
      tl_cms = \<lparr>cms_width = 16, cms_depth = 2,
                cms_rows = [[0, 0, 0, 0, 0, 0, 0, 0, 0, 0, 0, 0, 0, 3, 2, 0],
                            [0, 0, 0, 0, 0, 3, 2, 0, 0, 0, 0, 0, 0, 0, 0, 0]]\<rparr>\<rparr>"

text \<open>Options of a predictive cache with two shards; the threshold type is left trivial.\<close>

definition example_opts :: "unit Options" where
  "example_opts = \<lparr>opt_shards = 2, opt_prefetch_topk = 1, opt_min_trans_count = 4,
                    opt_min_trans_prob = (), opt_enable_prefetch = True\<rparr>"

section \<open>Properties of the LRU cache\<close>

lemma set_unlink: "distinct (map fst ns) \<Longrightarrow> fst ` set (unlink key ns) = fst ` set ns - {key}"
  by (induction ns) (auto simp: image_iff)

lemma set_unlink_subset: "set (unlink key ns) \<subseteq> set ns"
  by (induction ns) auto

lemma distinct_unlink: "distinct (map fst ns) \<Longrightarrow> distinct (map fst (unlink key ns))"
proof (induction ns)
  case Nil
  then show ?case by simp
next
  case (Cons n ns)
  have "fst n \<notin> fst ` set (unlink key ns)"
    using Cons.prems set_unlink_subset [of key ns] by auto
  with Cons show ?case by simp
qed

lemma unlink_last: "distinct (map fst ns) \<Longrightarrow> ns \<noteq> [] \<Longrightarrow> unlink (fst (last ns)) ns = butlast ns"
proof (induction ns)
  case Nil
  then show ?case by simp
next
  case (Cons n ns)
  show ?case
  proof (cases "ns = []")
    case True
    then show ?thesis by simp
  next
    case False
    then have "last ns \<in> set ns" by simp
    then have "fst n \<noteq> fst (last ns)" using Cons.prems(1) by auto
    with Cons False show ?thesis by simp
  qed
qed

lemma lru_inv_card: "lru_inv c \<Longrightarrow> card (lru_map c) = length (lru_items c)"
  unfolding lru_inv_def by (metis distinct_card length_map set_map)

lemma lru_inv_get: "lru_inv c \<Longrightarrow> lru_inv (snd (lru_get key c))"
proof -
  assume inv: "lru_inv c"
  show ?thesis
  proof (cases "map_of (lru_items c) key")
    case None
    then show ?thesis using inv by (simp add: lru_get_def splice_front_def lru_inv_def)
  next
    case (Some v)
    then have "key \<in> fst ` set (lru_items c)" by (metis map_of_SomeD fst_conv image_eqI)
    then show ?thesis
      using inv Some set_unlink [of "lru_items c" key] distinct_unlink [of "lru_items c" key]
      by (auto simp: lru_get_def splice_front_def lru_inv_def)
  qed
qed

lemma lru_inv_erase: "lru_inv c \<Longrightarrow> lru_inv (snd (lru_erase key c))"
  using set_unlink [of "lru_items c" key] distinct_unlink [of "lru_items c" key]
  by (auto simp: lru_erase_def lru_inv_def)

lemma distinct_butlast_fst: "distinct (map fst ns) \<Longrightarrow> distinct (map fst (butlast ns))"
  by (simp add: distinct_butlast map_butlast)

lemma set_butlast_fst:
  "distinct (map fst ns) \<Longrightarrow> ns \<noteq> [] \<Longrightarrow> fst ` set (butlast ns) = fst ` set ns - {fst (last ns)}"
  using set_unlink [of ns "fst (last ns)"] unlink_last [of ns] by simp

lemma lru_inv_put: "lru_inv c \<Longrightarrow> lru_inv (lru_put key value c)"
proof -
  assume inv: "lru_inv c"
  show ?thesis
  proof (cases "key \<in> lru_map c")
    case True
    then show ?thesis
      using inv set_unlink [of "lru_items c" key] distinct_unlink [of "lru_items c" key]
      by (auto simp: lru_put_def lru_inv_def)
  next
    case False
    let ?ns = "(key, value) # lru_items c"
    have d: "distinct (map fst ?ns)" using inv False by (auto simp: lru_inv_def)
    have m: "insert key (lru_map c) = fst ` set ?ns" using inv by (auto simp: lru_inv_def)
    have "lru_inv (c\<lparr>lru_map := insert key (lru_map c) - {fst (last ?ns)},
                     lru_items := butlast ?ns\<rparr>)"
      unfolding lru_inv_def using distinct_butlast_fst [OF d] set_butlast_fst [OF d] m
      by (simp del: butlast.simps last.simps)
    moreover have "lru_inv (c\<lparr>lru_items := ?ns, lru_map := insert key (lru_map c)\<rparr>)"
      unfolding lru_inv_def using d m by simp
    ultimately show ?thesis
      using False by (simp add: lru_put_def Let_def del: butlast.simps last.simps)
  qed
qed

lemma lru_inv_step: "lru_inv c \<Longrightarrow> lru_inv (lru_step op c)"
  by (cases op) (simp_all add: lru_inv_get lru_inv_put lru_inv_erase)

lemma lru_inv_fold: "lru_inv c \<Longrightarrow> lru_inv (fold lru_step ops c)"
  by (induction ops arbitrary: c) (simp_all add: lru_inv_step)

lemma capacity_step: "lru_cap (lru_step op c) = lru_cap c"
  by (cases op) (simp_all add: lru_get_def lru_put_def lru_erase_def Let_def)

lemma capacity_fold: "lru_cap (fold lru_step ops c) = lru_cap c"
  by (induction ops arbitrary: c) (simp_all add: capacity_step)

lemma size_put_le:
  assumes "lru_inv c" and "card (lru_map c) \<le> lru_cap c"
  shows "card (lru_map (lru_put key value c)) \<le> lru_cap c"
proof (cases "key \<in> lru_map c")
  case True
  then show ?thesis using assms(2) by (simp add: lru_put_def)
next
  case False
  have inv': "lru_inv (lru_put key value c)" using assms(1) by (rule lru_inv_put)
  have fin: "finite (lru_map c)" using assms(1) by (simp add: lru_inv_def)
  have "card (insert key (lru_map c)) = Suc (length (lru_items c))"
    using False fin lru_inv_card [OF assms(1)] by simp
  then have "length (lru_items (lru_put key value c)) \<le> lru_cap c"
    using False assms(2) lru_inv_card [OF assms(1)]
    by (simp add: lru_put_def Let_def)
  then show ?thesis using lru_inv_card [OF inv'] by simp
qed

lemma size_step_le:
  assumes "lru_inv c" and "card (lru_map c) \<le> lru_cap c"
  shows "card (lru_map (lru_step op c)) \<le> lru_cap c"
proof (cases op)
  case (Get k)
  then show ?thesis using assms(2) by (simp add: lru_get_def)
next
  case (Put k v)
  then show ?thesis using size_put_le [OF assms] by simp
next
  case (Erase k)
  show ?thesis using Erase assms(2) by (auto simp: lru_erase_def)
qed

lemma size_fold_le:
  "lru_inv c \<Longrightarrow> card (lru_map c) \<le> lru_cap c \<Longrightarrow>
   card (lru_map (fold lru_step ops c)) \<le> lru_cap c"
proof (induction ops arbitrary: c)
  case Nil
  then show ?case by simp
next
  case (Cons op ops)
  have "card (lru_map (fold lru_step ops (lru_step op c))) \<le> lru_cap (lru_step op c)"
    using Cons.prems by (intro Cons.IH lru_inv_step) (simp_all add: size_step_le capacity_step)
  then show ?case by (simp add: capacity_step)
qed

lemma lru_inv_new: "LRUCache C = Inr c0 \<Longrightarrow> lru_inv c0 \<and> lru_cap c0 = C \<and> lru_map c0 = {}"
  by (auto simp: LRUCache_def lru_inv_def)

lemma lru_reachable:
  assumes "LRUCache C = Inr c0"
  shows "lru_inv (lru_run ops c0) \<and> lru_cap (lru_run ops c0) = C
         \<and> card (lru_map (lru_run ops c0)) \<le> C"
proof -
  have c0: "lru_inv c0" "lru_cap c0 = C" "card (lru_map c0) \<le> lru_cap c0"
    using lru_inv_new [OF assms] by simp_all
  show ?thesis
    unfolding lru_run_def
    using lru_inv_fold [OF c0(1)] size_fold_le [OF c0(1) c0(3)] c0(2)
    by (simp add: capacity_fold)
qed

lemma put_full_evicts_tail:
  assumes inv: "lru_inv c" and new: "key \<notin> lru_map c"
    and full: "card (lru_map c) = lru_cap c" and tail: "peek_lru_key c = Some t"
  shows "t \<notin> lru_map (lru_put key value c)"
proof -
  have ne: "lru_items c \<noteq> []" and t: "t = fst (last (lru_items c))"
    using tail by (auto simp: peek_lru_key_def split: if_splits)
  have fin: "finite (lru_map c)" using inv by (simp add: lru_inv_def)
  have "lru_cap c < card (insert key (lru_map c))" using new fin full by simp
  then show ?thesis using new ne t by (simp add: lru_put_def Let_def)
qed

text \<open>
  C2. Starting from \<open>LRUCache(C)\<close>, after every sequence of get, put and erase
  calls the size is at most \<open>C\<close>; and a put of an absent key into a cache of size
  \<open>C\<close> removes the key that \<open>peek_lru_key\<close> returned before the put.
\<close>

theorem lru_size_bounded_and_tail_evicted:
  assumes "LRUCache C = Inr c0" and "c = lru_run ops c0"
  shows "lru_size c \<le> C \<and>
         (\<forall>k v t. \<not> lru_contains k c \<and> lru_size c = C \<and> peek_lru_key c = Some t
            \<longrightarrow> \<not> lru_contains t (lru_put k v c))"
  using lru_reachable [OF assms(1), of ops] assms(2) put_full_evicts_tail [of c]
  by (auto simp: lru_size_def lru_contains_def)

theorem lru_size_bounded_and_tail_evicted_witness:
  "LRUCache 2 = Inr (\<lparr>lru_items = [], lru_map = {}, lru_cap = 2\<rparr> :: (nat, string) LRUCache)
   \<and> lru_size (lru_run [Put (1::nat) ''a'', Put 2 ''b'', Get 1]
                  \<lparr>lru_items = [], lru_map = {}, lru_cap = 2\<rparr>) = 2
   \<and> \<not> lru_contains 3 (lru_run [Put (1::nat) ''a'', Put 2 ''b'', Get 1]
                  \<lparr>lru_items = [], lru_map = {}, lru_cap = 2\<rparr>)
   \<and> peek_lru_key (lru_run [Put (1::nat) ''a'', Put 2 ''b'', Get 1]
                  \<lparr>lru_items = [], lru_map = {}, lru_cap = 2\<rparr>) = Some 2
   \<and> \<not> lru_contains 2 (lru_put 3 ''c'' (lru_run [Put (1::nat) ''a'', Put 2 ''b'', Get 1]
                  \<lparr>lru_items = [], lru_map = {}, lru_cap = 2\<rparr>))"
proof -
  let ?c0 = "\<lparr>lru_items = [], lru_map = {}, lru_cap = 2\<rparr> :: (nat, string) LRUCache"
  let ?ops = "[Put (1::nat) ''a'', Put 2 ''b'', Get 1]"
  have new: "LRUCache 2 = Inr ?c0" by (simp add: LRUCache_def)
  have run: "lru_run ?ops ?c0 = \<lparr>lru_items = [(1, ''a''), (2, ''b'')], lru_map = {1, 2}, lru_cap = 2\<rparr>"
    by (simp add: lru_run_def lru_put_def lru_get_def splice_front_def Let_def insert_commute)
  have pre: "\<not> lru_contains 3 (lru_run ?ops ?c0) \<and> lru_size (lru_run ?ops ?c0) = 2
             \<and> peek_lru_key (lru_run ?ops ?c0) = Some 2"
    unfolding run by (simp add: lru_contains_def lru_size_def peek_lru_key_def)
  have "\<not> lru_contains 3 (lru_run ?ops ?c0) \<and> lru_size (lru_run ?ops ?c0) = 2
          \<and> peek_lru_key (lru_run ?ops ?c0) = Some 2
        \<longrightarrow> \<not> lru_contains 2 (lru_put 3 ''c'' (lru_run ?ops ?c0))"
    using lru_size_bounded_and_tail_evicted [OF new refl, of ?ops, THEN conjunct2,
        THEN spec, THEN spec, THEN spec, of 3 2 "''c''"] .
  then show ?thesis using new pre by simp
qed

text \<open>
  C9. \<open>LRUCache(0)\<close> is constructed without a failure, and on it every put
  leaves the cache empty: the size is 0, the key is not contained and a get of
  it returns absent.
\<close>

theorem lru_capacity_zero_always_empty:
  "\<exists>c0. LRUCache 0 = Inr c0 \<and>
     (\<forall>ops k v. lru_size (lru_put k v (lru_run ops c0)) = 0
        \<and> \<not> lru_contains k (lru_put k v (lru_run ops c0))
        \<and> fst (lru_get k (lru_put k v (lru_run ops c0))) = None)"
proof -
  let ?c0 = "\<lparr>lru_items = [], lru_map = {}, lru_cap = 0\<rparr> :: ('a, 'b) LRUCache"
  have new: "LRUCache 0 = Inr ?c0" by (simp add: LRUCache_def)
  have "lru_size (lru_put k v (lru_run ops ?c0)) = 0
        \<and> \<not> lru_contains k (lru_put k v (lru_run ops ?c0))
        \<and> fst (lru_get k (lru_put k v (lru_run ops ?c0))) = None" for ops k v
  proof -
    have r: "lru_inv (lru_run (ops @ [Put k v]) ?c0)"
      "card (lru_map (lru_run (ops @ [Put k v]) ?c0)) \<le> 0"
      using lru_reachable [OF new, of "ops @ [Put k v]"] by simp_all
    have eq: "lru_run (ops @ [Put k v]) ?c0 = lru_put k v (lru_run ops ?c0)"
      by (simp add: lru_run_def)
    have "finite (lru_map (lru_put k v (lru_run ops ?c0)))"
      using r(1) unfolding eq by (simp add: lru_inv_def)
    then have "lru_map (lru_put k v (lru_run ops ?c0)) = {}"
      using r(2) unfolding eq by simp
    then show ?thesis by (simp add: lru_size_def lru_contains_def lru_get_def)
  qed
  then show ?thesis using new by blast
qed

theorem lru_capacity_zero_always_empty_witness:
  "LRUCache 0 = Inr (\<lparr>lru_items = [], lru_map = {}, lru_cap = 0\<rparr> :: (nat, string) LRUCache)
   \<and> lru_size (lru_put (7::nat) ''x'' (lru_run [Put 1 ''a'', Get 1] \<lparr>lru_items = [], lru_map = {}, lru_cap = 0\<rparr>)) = 0
   \<and> \<not> lru_contains 7 (lru_put (7::nat) ''x'' (lru_run [Put 1 ''a'', Get 1] \<lparr>lru_items = [], lru_map = {}, lru_cap = 0\<rparr>))
   \<and> fst (lru_get 7 (lru_put (7::nat) ''x'' (lru_run [Put 1 ''a'', Get 1] \<lparr>lru_items = [], lru_map = {}, lru_cap = 0\<rparr>))) = None"
  using lru_capacity_zero_always_empty [where ?'a = nat and ?'b = string]
  by (auto simp: LRUCache_def)

section \<open>Properties of the sharded constructors\<close>

lemma build_shards_lru:
  "build_shards LRUCache caps = Inr (map (\<lambda>cap. \<lparr>lru_items = [], lru_map = {}, lru_cap = cap\<rparr>) caps)"
  by (induction caps) (simp_all add: LRUCache_def)

lemma build_shards_tl:
  "build_shards (\<lambda>cap. TinyLFUAdmittingLRU cap w d) caps =
     Inr (map (\<lambda>cap. \<lparr>tl_lru = \<lparr>lru_items = [], lru_map = {}, lru_cap = cap\<rparr>,
                       tl_cms = \<lparr>cms_width = w, cms_depth = d,
                                 cms_rows = replicate (unat d) (replicate (unat w) 0)\<rparr>\<rparr>) caps)"
  by (induction caps) (simp_all add: TinyLFUAdmittingLRU_def LRUCache_def CountMinSketch_def)

lemma sum_shard_cap:
  assumes "0 < N"
  shows "sum_list (map (shard_cap T N) [0..<N]) = T"
proof -
  obtain M where N: "N = Suc M" using assms by (cases N) auto
  have "sum_list (map (shard_cap T N) [0..<M]) = sum_list (map (\<lambda>i. T div N) [0..<M])"
    by (rule arg_cong [where f = sum_list], rule map_cong) (auto simp: shard_cap_def N)
  also have "\<dots> = M * (T div N)"
    by (simp add: sum_list_triv)
  finally have "sum_list (map (shard_cap T N) [0..<M]) = M * (T div N)" .
  moreover have "shard_cap T N M = T div N + T mod N"
    by (simp add: shard_cap_def N)
  ultimately have "sum_list (map (shard_cap T N) [0..<N]) = N * (T div N) + T mod N"
    by (simp add: N)
  then show ?thesis by simp
qed

text \<open>
  C8. With \<open>N \<ge> 1\<close> shards and total capacity \<open>T\<close>, both sharded constructors
  succeed, give each of the shards \<open>0 .. N - 2\<close> the capacity \<open>T div N\<close> and shard
  \<open>N - 1\<close> the capacity \<open>T div N + T mod N\<close>, and the capacities add up to \<open>T\<close>.
\<close>

theorem shard_capacities:
  assumes "1 \<le> N"
  shows "\<exists>s w. ShardedLRU T N = Inr s \<and> ShardedWTinyLFU T N cms_w cms_d = Inr w
           \<and> length (sl_shards s) = N \<and> length (sw_shards w) = N
           \<and> (\<forall>i. i + 2 \<le> N \<longrightarrow> lru_capacity (sl_shards s ! i) = T div N
                                  \<and> lru_capacity (tl_lru (sw_shards w ! i)) = T div N)
           \<and> lru_capacity (sl_shards s ! (N - 1)) = T div N + T mod N
           \<and> lru_capacity (tl_lru (sw_shards w ! (N - 1))) = T div N + T mod N
           \<and> sum_list (map lru_capacity (sl_shards s)) = T
           \<and> sum_list (map (\<lambda>sh. lru_capacity (tl_lru sh)) (sw_shards w)) = T"
proof -
  have N: "0 < N" "N \<noteq> 0" using assms by simp_all
  have caps: "i + 2 \<le> N \<Longrightarrow> shard_cap T N i = T div N" for i
    by (auto simp: shard_cap_def)
  have last: "shard_cap T N (N - 1) = T div N + T mod N"
    by (simp add: shard_cap_def)
  show ?thesis
    using N caps last sum_shard_cap [OF N(1), of T]
    by (simp add: ShardedLRU_def ShardedWTinyLFU_def build_shards_lru build_shards_tl
        lru_capacity_def comp_def)
qed

theorem shard_capacities_witness:
  "\<exists>s w. ShardedLRU 10 4 = Inr (s :: (nat, string) ShardedLRU)
         \<and> ShardedWTinyLFU 10 4 4096 4 = Inr (w :: (nat, string) ShardedWTinyLFU)
         \<and> lru_capacity (sl_shards s ! 0) = 2 \<and> lru_capacity (sl_shards s ! 2) = 2
         \<and> lru_capacity (sl_shards s ! 3) = 4
         \<and> lru_capacity (tl_lru (sw_shards w ! 0)) = 2 \<and> lru_capacity (tl_lru (sw_shards w ! 2)) = 2
         \<and> lru_capacity (tl_lru (sw_shards w ! 3)) = 4
         \<and> sum_list (map lru_capacity (sl_shards s)) = 10
         \<and> sum_list (map (\<lambda>sh. lru_capacity (tl_lru sh)) (sw_shards w)) = 10"
proof -
  obtain s :: "(nat, string) ShardedLRU" and w :: "(nat, string) ShardedWTinyLFU" where
    sw: "ShardedLRU 10 4 = Inr s" "ShardedWTinyLFU 10 4 4096 4 = Inr w"
      "\<forall>i. i + 2 \<le> (4::nat) \<longrightarrow> lru_capacity (sl_shards s ! i) = 10 div 4
                                  \<and> lru_capacity (tl_lru (sw_shards w ! i)) = 10 div 4"
      "lru_capacity (sl_shards s ! (4 - 1)) = 10 div 4 + 10 mod 4"
      "lru_capacity (tl_lru (sw_shards w ! (4 - 1))) = 10 div 4 + 10 mod 4"
      "sum_list (map lru_capacity (sl_shards s)) = 10"
      "sum_list (map (\<lambda>sh. lru_capacity (tl_lru sh)) (sw_shards w)) = 10"
    using shard_capacities [of 4 10 4096 4] by auto
  show ?thesis
    using sw(1,2,4,5,6,7) sw(3) [rule_format, of 0] sw(3) [rule_format, of 2]
    by (intro exI [of _ s] exI [of _ w]) simp
qed

section \<open>Properties of the sketch\<close>

lemma cms_index_less: "cms_width c \<noteq> 0 \<Longrightarrow> cms_index hash c k i < unat (cms_width c)"
proof -
  assume w: "cms_width c \<noteq> 0"
  have "unat (x AND (cms_width c - 1)) \<le> unat (cms_width c - 1)" for x
    by (rule word_and_le1 [THEN word_le_nat_alt [THEN iffD1]])
  moreover have "unat (cms_width c - 1) = unat (cms_width c) - 1"
    using w by (rule unat_minus_one)
  moreover have "0 < unat (cms_width c)" using w by (simp add: unat_gt_0)
  ultimately show ?thesis
    unfolding cms_index_def Let_def by (metis One_nat_def Suc_pred' less_Suc_eq_le)
qed

lemma cms_index_rows_update [simp]:
  "cms_index hash (c\<lparr>cms_rows := rows\<rparr>) k i = cms_index hash c k i"
  by (simp add: cms_index_def)

lemma cms_index_cong: "cms_width c' = cms_width c \<Longrightarrow> cms_index hash c' k i = cms_index hash c k i"
  by (simp add: cms_index_def)

lemma add_loop_rows:
  assumes "cms_ok c" and "distinct is" and "\<forall>i\<in>set is. i < unat (cms_depth c)"
  shows "\<exists>c'. add_loop hash k is c = Some c' \<and> cms_ok c'
           \<and> cms_width c' = cms_width c \<and> cms_depth c' = cms_depth c
           \<and> (\<forall>i<unat (cms_depth c). cms_rows c' ! i =
                 (if i \<in> set is then bump_row hash c k i (cms_rows c ! i) else cms_rows c ! i))"
  using assms
proof (induction "is" arbitrary: c)
  case Nil
  then show ?case by simp
next
  case (Cons i "is")
  let ?idx = "cms_index hash c k i"
  let ?c1 = "c\<lparr>cms_rows := (cms_rows c)[i := (cms_rows c ! i)[?idx := sat_inc (cms_rows c ! i ! ?idx)]]\<rparr>"
  have i: "i < length (cms_rows c)" using Cons.prems by (simp add: cms_ok_def)
  have len: "length (cms_rows c ! i) = unat (cms_width c)"
    using Cons.prems(1) i by (simp add: cms_ok_def list_all_length)
  have idx: "?idx < length (cms_rows c ! i)"
    using Cons.prems(1) len by (simp add: cms_ok_def cms_index_less)
  have ok1: "cms_ok ?c1"
    using Cons.prems(1) i by (auto simp: cms_ok_def list_all_length nth_list_update)
  have step: "add_loop hash k (i # is) c = add_loop hash k is ?c1"
    using i idx by (simp add: Let_def)
  obtain c' where c': "add_loop hash k is ?c1 = Some c'" "cms_ok c'"
      "cms_width c' = cms_width ?c1" "cms_depth c' = cms_depth ?c1"
      "\<forall>j<unat (cms_depth ?c1). cms_rows c' ! j =
          (if j \<in> set is then bump_row hash ?c1 k j (cms_rows ?c1 ! j) else cms_rows ?c1 ! j)"
    using Cons.IH [OF ok1] Cons.prems(2,3) by auto
  have "cms_rows c' ! j =
          (if j \<in> set (i # is) then bump_row hash c k j (cms_rows c ! j) else cms_rows c ! j)"
    if "j < unat (cms_depth c)" for j
  proof -
    have jl: "j < length (cms_rows c)" using that Cons.prems(1) by (simp add: cms_ok_def)
    show ?thesis
      using c'(5) [rule_format, of j] that Cons.prems(2) jl i
      by (auto simp: nth_list_update bump_row_def)
  qed
  then show ?case using step c'(1-4) by simp
qed

lemma cms_add_rows:
  assumes "cms_ok c"
  shows "\<exists>c'. cms_add hash k c = Some c' \<and> cms_ok c'
           \<and> cms_width c' = cms_width c \<and> cms_depth c' = cms_depth c
           \<and> (\<forall>i<unat (cms_depth c). cms_rows c' ! i = bump_row hash c k i (cms_rows c ! i))"
  using add_loop_rows [OF assms, of "[0..<unat (cms_depth c)]" hash k]
  by (auto simp: cms_add_def)


lemma estimate_loop_fold:
  assumes "cms_ok c" and "\<forall>i\<in>set is. i < unat (cms_depth c)"
  shows "estimate_loop hash k is c m = Some (fold min (map (cell hash c k) is) m)"
  using assms
proof (induction "is" arbitrary: m)
  case Nil
  then show ?case by simp
next
  case (Cons i "is")
  have i: "i < length (cms_rows c)" using Cons.prems by (simp add: cms_ok_def)
  have "length (cms_rows c ! i) = unat (cms_width c)"
    using Cons.prems(1) i by (simp add: cms_ok_def list_all_length)
  then have "cms_index hash c k i < length (cms_rows c ! i)"
    using Cons.prems(1) by (simp add: cms_ok_def cms_index_less)
  then show ?case using i Cons by (simp add: Let_def cell_def min.commute)
qed

lemma fold_min_Min: "fold min xs (m::u32) = Min (insert m (set xs))"
  using Min.set_eq_fold [of m xs] by simp

lemma cms_estimate_Min:
  assumes "cms_ok c"
  shows "cms_estimate hash k c =
           Some (let m = Min (insert UINT32_MAX (cell hash c k ` {0..<unat (cms_depth c)}))
                 in if m = UINT32_MAX then 0 else m)"
  using estimate_loop_fold [OF assms, of "[0..<unat (cms_depth c)]" hash k UINT32_MAX]
  by (simp add: cms_estimate_def fold_min_Min Let_def)

lemma unat_u32_less: "unat (x::u32) < 2 ^ 32"
  using unsigned_less [of x, where ?'a = nat] by simp

lemma unat_UINT32_MAX: "unat UINT32_MAX = 2 ^ 32 - 1"
  by (simp add: UINT32_MAX_def)

lemma u32_le_MAX: "(x::u32) \<le> UINT32_MAX"
  by (simp add: UINT32_MAX_def word_le_nat_alt) (use unat_u32_less [of x] in simp)

lemma unat_sat_inc: "unat (sat_inc x) = min (2 ^ 32 - 1) (unat x + 1)"
proof (cases "x = UINT32_MAX")
  case True
  then show ?thesis by (simp add: sat_inc_def unat_UINT32_MAX)
next
  case False
  then have "unat x \<noteq> 2 ^ 32 - 1"
    by (metis unat_UINT32_MAX word_unat_eq_iff)
  moreover have "unat x < 2 ^ 32" using unat_u32_less [of x] by simp
  ultimately have lt: "unat x + 1 < 2 ^ 32" by simp
  then have "unat (x + 1) = unat x + 1"
    by (simp add: unat_word_ariths)
  then show ?thesis using False lt by (simp add: sat_inc_def)
qed

lemma hits_width: "cms_width c' = cms_width c \<Longrightarrow> hits hash c' i j ks = hits hash c i j ks"
  by (simp add: hits_def cms_index_def)

lemma cms_adds_counters:
  assumes "cms_ok c"
  shows "\<exists>c'. cms_adds hash ks c = Some c' \<and> cms_ok c'
           \<and> cms_width c' = cms_width c \<and> cms_depth c' = cms_depth c
           \<and> (\<forall>i<unat (cms_depth c). \<forall>j<unat (cms_width c).
                 unat (cms_rows c' ! i ! j) =
                   min (2 ^ 32 - 1) (unat (cms_rows c ! i ! j) + hits hash c i j ks))"
  using assms
proof (induction ks arbitrary: c)
  case Nil
  have "unat x = min (2 ^ 32 - 1) (unat x)" for x :: u32
    using unat_u32_less [of x] by simp
  then show ?case using Nil by (simp add: hits_def)
next
  case (Cons k ks)
  obtain c1 where c1: "cms_add hash k c = Some c1" "cms_ok c1"
      "cms_width c1 = cms_width c" "cms_depth c1 = cms_depth c"
      "\<forall>i<unat (cms_depth c). cms_rows c1 ! i = bump_row hash c k i (cms_rows c ! i)"
    using cms_add_rows [OF Cons.prems, of hash k] by auto
  obtain c' where c': "cms_adds hash ks c1 = Some c'" "cms_ok c'"
      "cms_width c' = cms_width c1" "cms_depth c' = cms_depth c1"
      "\<forall>i<unat (cms_depth c1). \<forall>j<unat (cms_width c1).
          unat (cms_rows c' ! i ! j) =
            min (2 ^ 32 - 1) (unat (cms_rows c1 ! i ! j) + hits hash c1 i j ks)"
    using Cons.IH [OF c1(2)] by auto
  have "unat (cms_rows c' ! i ! j) =
          min (2 ^ 32 - 1) (unat (cms_rows c ! i ! j) + hits hash c i j (k # ks))"
    if i: "i < unat (cms_depth c)" and j: "j < unat (cms_width c)" for i j
  proof -
    have il: "i < length (cms_rows c)" using i Cons.prems by (simp add: cms_ok_def)
    have jl: "j < length (cms_rows c ! i)"
      using j il Cons.prems by (simp add: cms_ok_def list_all_length)
    have r1: "cms_rows c1 ! i ! j =
                (if j = cms_index hash c k i then sat_inc (cms_rows c ! i ! j) else cms_rows c ! i ! j)"
      using c1(5) i jl by (auto simp: bump_row_def)
    have "unat (cms_rows c' ! i ! j) =
            min (2 ^ 32 - 1) (unat (cms_rows c1 ! i ! j) + hits hash c i j ks)"
      using c'(5) i j c1(3,4) hits_width [OF c1(3), of hash i j ks] by simp
    then show ?thesis
      unfolding r1 by (auto simp: unat_sat_inc hits_def)
  qed
  then show ?case using c1(1,3,4) c'(1-4) by simp
qed

lemma cms_ok_new:
  "w \<noteq> 0 \<Longrightarrow> CountMinSketch w d = Inr c0 \<Longrightarrow>
   cms_ok c0 \<and> cms_width c0 = w \<and> cms_depth c0 = d
   \<and> (\<forall>i<unat d. \<forall>j<unat w. cms_rows c0 ! i ! j = 0)"
  by (auto simp: CountMinSketch_def cms_ok_def list_all_length)

lemma cms_fresh_counters:
  assumes "w \<noteq> 0" and "CountMinSketch w d = Inr c0"
  shows "\<exists>c. cms_adds hash ks c0 = Some c \<and> cms_ok c
           \<and> cms_width c = w \<and> cms_depth c = d
           \<and> (\<forall>i<unat d. \<forall>k. unat (cell hash c k i) =
                 min (2 ^ 32 - 1) (hits hash c0 i (cms_index hash c0 k i) ks))"
proof -
  note n = cms_ok_new [OF assms]
  obtain c where c: "cms_adds hash ks c0 = Some c" "cms_ok c"
      "cms_width c = cms_width c0" "cms_depth c = cms_depth c0"
      "\<forall>i<unat (cms_depth c0). \<forall>j<unat (cms_width c0).
          unat (cms_rows c ! i ! j) =
            min (2 ^ 32 - 1) (unat (cms_rows c0 ! i ! j) + hits hash c0 i j ks)"
    using cms_adds_counters [of c0 hash ks] n by auto
  have "unat (cell hash c k i) = min (2 ^ 32 - 1) (hits hash c0 i (cms_index hash c0 k i) ks)"
    if "i < unat d" for i k
  proof -
    have j: "cms_index hash c0 k i < unat (cms_width c0)"
      using cms_index_less [of c0 hash k i] n assms(1) by simp
    have "cms_index hash c k i = cms_index hash c0 k i"
      using c(3) by (rule cms_index_cong)
    then show ?thesis
      using c(5) [rule_format, of i "cms_index hash c0 k i"] that j n
      by (simp add: cell_def)
  qed
  then show ?thesis using c(1-4) n by auto
qed

lemma estimate_le_cell:
  assumes "cms_ok c" and "cms_estimate hash k c = Some e" and "i < unat (cms_depth c)"
  shows "e \<le> cell hash c k i"
proof -
  let ?S = "insert UINT32_MAX (cell hash c k ` {0..<unat (cms_depth c)})"
  have "Min ?S \<le> cell hash c k i" using assms(3) by (intro Min_le) auto
  moreover have "e = (if Min ?S = UINT32_MAX then 0 else Min ?S)"
    using assms(2) cms_estimate_Min [OF assms(1), of hash k] by (simp add: Let_def)
  ultimately show ?thesis by (auto split: if_splits)
qed

lemma hits_le_length: "hits hash c i j ks \<le> length ks"
  by (simp add: hits_def)

text \<open>
  C4, as the code has it. After any sequence \<open>ks\<close> of \<open>add\<close> calls on a fresh
  sketch of non-zero width, \<open>estimate(k)\<close> is at most, for every row, the number
  of added keys that the row sends to the column of \<open>k\<close> (the adds of \<open>k\<close> itself
  and of every key colliding with it there), and so at most the number of
  \<open>add\<close> calls.
\<close>

theorem estimate_le_colliding_adds:
  assumes "w \<noteq> 0" and "CountMinSketch w d = Inr c0"
  shows "\<exists>c e. cms_adds hash ks c0 = Some c \<and> cms_estimate hash k c = Some e
           \<and> (\<forall>i<unat d. unat e \<le> hits hash c0 i (cms_index hash c0 k i) ks)
           \<and> unat e \<le> length ks"
proof -
  obtain c where c: "cms_adds hash ks c0 = Some c" "cms_ok c" "cms_depth c = d"
      "\<forall>i<unat d. \<forall>k. unat (cell hash c k i) =
          min (2 ^ 32 - 1) (hits hash c0 i (cms_index hash c0 k i) ks)"
    using cms_fresh_counters [OF assms, of hash ks] by auto
  obtain e where e: "cms_estimate hash k c = Some e"
    using cms_estimate_Min [OF c(2), of hash k] by simp
  have row: "unat e \<le> hits hash c0 i (cms_index hash c0 k i) ks" if "i < unat d" for i
  proof -
    have "unat e \<le> unat (cell hash c k i)"
      using estimate_le_cell [OF c(2) e, of i] that c(3) by (simp add: word_le_nat_alt)
    then show ?thesis using c(4) that by simp
  qed
  have "unat e \<le> length ks"
  proof (cases "unat d = 0")
    case True
    then have "e = 0"
      using e cms_estimate_Min [OF c(2), of hash k] c(3) by (simp add: Let_def)
    then show ?thesis by simp
  next
    case False
    then show ?thesis
      using row [of 0] hits_le_length [of hash c0 0 "cms_index hash c0 k 0" ks] by simp
  qed
  then show ?thesis using c(1) e row by blast
qed

theorem estimate_le_colliding_adds_witness:
  "\<exists>c0 c e. (16::u64) \<noteq> 0 \<and> CountMinSketch 16 2 = Inr c0
      \<and> cms_adds (\<lambda>k::u64. k) [0, 64, 5] c0 = Some c \<and> cms_estimate (\<lambda>k. k) 64 c = Some e
      \<and> unat e \<le> hits (\<lambda>k. k) c0 0 (cms_index (\<lambda>k. k) c0 64 0) [0, 64, 5]
      \<and> unat e \<le> hits (\<lambda>k. k) c0 1 (cms_index (\<lambda>k. k) c0 64 1) [0, 64, 5]
      \<and> unat e \<le> length [0::u64, 64, 5]"
proof -
  obtain c0 where c0: "CountMinSketch 16 2 = Inr c0" by (simp add: CountMinSketch_def)
  obtain c e where ce: "cms_adds (\<lambda>k::u64. k) [0, 64, 5] c0 = Some c"
      "cms_estimate (\<lambda>k. k) 64 c = Some e"
      "\<forall>i<unat (2::u64). unat e \<le> hits (\<lambda>k. k) c0 i (cms_index (\<lambda>k. k) c0 64 i) [0, 64, 5]"
      "unat e \<le> length [0::u64, 64, 5]"
    using estimate_le_colliding_adds [OF _ c0, of "\<lambda>k. k" "[0, 64, 5]" 64] by auto
  show ?thesis
    using c0 ce(1,2,4) ce(3) [rule_format, of 0] ce(3) [rule_format, of 1] by simp
qed

text \<open>
  The estimate is not bounded by the number of observations of the key itself:
  with the identity hash, the keys 0 and 64 share their column in both rows of
  a 16 by 2 sketch, and after one \<open>add(0)\<close> the estimate of 64, never added, is 1.
\<close>

theorem estimate_le_count_counterexample:
  "\<exists>c0 c. CountMinSketch 16 2 = Inr c0 \<and> cms_adds (\<lambda>k::u64. k) [0] c0 = Some c
      \<and> cms_estimate (\<lambda>k. k) 64 c = Some 1 \<and> count_list [0::u64] 64 = 0"
  by (simp add: CountMinSketch_def cms_add_def cms_estimate_def cms_index_def seeds_def
      sat_inc_def UINT32_MAX_def Let_def upt_conv_Cons)

lemma hits_replicate: "hits hash c i (cms_index hash c k i) (replicate n k) = n"
  by (simp add: hits_def)

lemma estimate_all_cells:
  assumes "cms_ok c" and "cms_depth c \<noteq> 0" and "\<forall>i<unat (cms_depth c). cell hash c k i = x"
  shows "cms_estimate hash k c = Some (if x = UINT32_MAX then 0 else x)"
proof -
  have d: "0 < unat (cms_depth c)" using assms(2) by (simp add: unat_gt_0)
  then have "cell hash c k ` {0..<unat (cms_depth c)} = {x}"
    using assms(3) by (auto simp: image_iff)
  then have "Min (insert UINT32_MAX (cell hash c k ` {0..<unat (cms_depth c)})) = min UINT32_MAX x"
    by simp
  also have "\<dots> = x" using u32_le_MAX [of x] by (simp add: min_def)
  finally show ?thesis using cms_estimate_Min [OF assms(1), of hash k] by (simp add: Let_def)
qed

text \<open>
  C10. On a sketch of depth at least 1, \<open>estimate(k)\<close> is 0 when every counter
  selected for \<open>k\<close> holds \<open>UINT32_MAX\<close>; and on a fresh sketch there is a number
  of \<open>add(k)\<close> calls after which one more \<open>add(k)\<close> makes \<open>estimate(k)\<close> strictly
  smaller.
\<close>

theorem estimate_saturated_is_zero:
  "(cms_ok c \<and> cms_depth c \<noteq> 0
      \<and> (\<forall>i<unat (cms_depth c). cms_rows c ! i ! cms_index hash c k i = UINT32_MAX)
     \<longrightarrow> cms_estimate hash k c = Some 0)
   \<and> (w \<noteq> 0 \<and> d \<noteq> 0 \<and> CountMinSketch w d = Inr c0
     \<longrightarrow> (\<exists>n c1 c2 e1 e2. cms_adds hash (replicate n k) c0 = Some c1
            \<and> cms_add hash k c1 = Some c2
            \<and> cms_estimate hash k c1 = Some e1 \<and> cms_estimate hash k c2 = Some e2
            \<and> e2 < e1))"
proof (intro conjI impI)
  assume "cms_ok c \<and> cms_depth c \<noteq> 0
      \<and> (\<forall>i<unat (cms_depth c). cms_rows c ! i ! cms_index hash c k i = UINT32_MAX)"
  then show "cms_estimate hash k c = Some 0"
    using estimate_all_cells [of c hash k UINT32_MAX] by (simp add: cell_def)
next
  assume a: "w \<noteq> 0 \<and> d \<noteq> 0 \<and> CountMinSketch w d = Inr c0"
  define n :: nat where "n = 2 ^ 32 - 2"
  obtain c1 where c1: "cms_adds hash (replicate n k) c0 = Some c1" "cms_ok c1" "cms_depth c1 = d"
      "\<forall>i<unat d. \<forall>k'. unat (cell hash c1 k' i) =
          min (2 ^ 32 - 1) (hits hash c0 i (cms_index hash c0 k' i) (replicate n k))"
    using cms_fresh_counters [of w d c0 hash "replicate n k"] a by auto
  obtain c2 where c2: "cms_adds hash (replicate (Suc n) k) c0 = Some c2" "cms_ok c2" "cms_depth c2 = d"
      "\<forall>i<unat d. \<forall>k'. unat (cell hash c2 k' i) =
          min (2 ^ 32 - 1) (hits hash c0 i (cms_index hash c0 k' i) (replicate (Suc n) k))"
    using cms_fresh_counters [of w d c0 hash "replicate (Suc n) k"] a by auto
  have app: "cms_adds hash (xs @ ys) s = (case cms_adds hash xs s of None \<Rightarrow> None | Some s' \<Rightarrow> cms_adds hash ys s')"
    for xs ys :: "'a list" and s
    by (induction xs arbitrary: s) (auto split: option.splits)
  have "replicate (Suc n) k = replicate n k @ [k]" by (simp add: replicate_append_same)
  then have add: "cms_add hash k c1 = Some c2"
    using c2(1) c1(1) app [of "replicate n k" "[k]" c0] by (simp split: option.splits)
  have "cell hash c1 k i = 4294967294" if "i < unat d" for i
  proof -
    have "unat (cell hash c1 k i) = unat (4294967294 :: u32)"
      using c1(4) that by (simp add: hits_replicate n_def)
    then show ?thesis by (simp only: word_unat_eq_iff)
  qed
  then have e1: "cms_estimate hash k c1 = Some 4294967294"
    using estimate_all_cells [of c1 hash k 4294967294] c1(2,3) a by (simp add: UINT32_MAX_def)
  have "cell hash c2 k i = UINT32_MAX" if "i < unat d" for i
  proof -
    have "unat (cell hash c2 k i) = unat UINT32_MAX"
      using c2(4) that by (simp add: hits_replicate unat_UINT32_MAX n_def del: replicate_Suc)
    then show ?thesis by (simp only: word_unat_eq_iff)
  qed
  then have e2: "cms_estimate hash k c2 = Some 0"
    using estimate_all_cells [of c2 hash k UINT32_MAX] c2(2,3) a by simp
  have "(0::u32) < 4294967294" by simp
  then show "\<exists>n c1 c2 e1 e2. cms_adds hash (replicate n k) c0 = Some c1
            \<and> cms_add hash k c1 = Some c2
            \<and> cms_estimate hash k c1 = Some e1 \<and> cms_estimate hash k c2 = Some e2
            \<and> e2 < e1"
    using c1(1) add e1 e2 by blast
qed

theorem estimate_saturated_is_zero_witness:
  "cms_ok \<lparr>cms_width = 1, cms_depth = 1, cms_rows = [[UINT32_MAX]]\<rparr>
   \<and> cms_depth \<lparr>cms_width = 1, cms_depth = 1, cms_rows = [[UINT32_MAX]]\<rparr> \<noteq> 0
   \<and> cms_rows \<lparr>cms_width = 1, cms_depth = 1, cms_rows = [[UINT32_MAX]]\<rparr> ! 0
        ! cms_index (\<lambda>k::u64. k) \<lparr>cms_width = 1, cms_depth = 1, cms_rows = [[UINT32_MAX]]\<rparr> 7 0
       = UINT32_MAX
   \<and> cms_estimate (\<lambda>k::u64. k) 7 \<lparr>cms_width = 1, cms_depth = 1, cms_rows = [[UINT32_MAX]]\<rparr> = Some 0
   \<and> (\<exists>c0 n c1 c2 e1 e2. CountMinSketch 1 1 = Inr c0
         \<and> cms_adds (\<lambda>k::u64. k) (replicate n 7) c0 = Some c1
         \<and> cms_add (\<lambda>k. k) 7 c1 = Some c2
         \<and> cms_estimate (\<lambda>k. k) 7 c1 = Some e1 \<and> cms_estimate (\<lambda>k. k) 7 c2 = Some e2
         \<and> e2 < e1)"
proof -
  let ?c = "\<lparr>cms_width = 1, cms_depth = 1, cms_rows = [[UINT32_MAX]]\<rparr>"
  let ?h = "\<lambda>k::u64. k"
  have ok: "cms_ok ?c" "cms_depth ?c \<noteq> 0" by (simp_all add: cms_ok_def)
  have idx: "cms_index ?h ?c 7 0 = 0" by (simp add: cms_index_def)
  have sat: "\<forall>i<unat (cms_depth ?c). cms_rows ?c ! i ! cms_index ?h ?c 7 i = UINT32_MAX"
    using idx by simp
  obtain c0 where c0: "CountMinSketch 1 1 = Inr c0" by (simp add: CountMinSketch_def)
  have one: "(1::u64) \<noteq> 0" by simp
  show ?thesis
    using estimate_saturated_is_zero [of ?c ?h 7 1 1 c0] ok sat idx c0 one by auto
qed

section \<open>Construction-time validation\<close>

text \<open>
  A sketch of width 0 and depth at least 1 is constructed, but \<open>add\<close> and
  \<open>estimate\<close> index an empty row on it.
\<close>

lemma cms_width_zero_undefined:
  assumes "d \<noteq> 0" and "CountMinSketch 0 d = Inr c"
  shows "cms_add hash k c = None \<and> cms_estimate hash k c = None"
proof -
  have d: "0 < unat d" using assms(1) by (simp add: unat_gt_0)
  then have u: "[0..<unat d] = 0 # [Suc 0..<unat d]" by (simp add: upt_conv_Cons)
  have c: "c = \<lparr>cms_width = 0, cms_depth = d, cms_rows = replicate (unat d) []\<rparr>"
    using assms(2) by (simp add: CountMinSketch_def)
  show ?thesis using d by (simp add: c cms_add_def cms_estimate_def u)
qed




section \<open>Properties of the admission layer\<close>

lemma cms_estimate_Some: "cms_ok c \<Longrightarrow> \<exists>e. cms_estimate hash k c = Some e"
  using cms_estimate_Min [of c hash k] by simp

lemma peek_in_map:
  assumes "lru_inv c" and "peek_lru_key c = Some t"
  shows "t \<in> lru_map c \<and> lru_items c \<noteq> [] \<and> t = fst (last (lru_items c))"
proof -
  have ne: "lru_items c \<noteq> []" and t: "t = fst (last (lru_items c))"
    using assms(2) by (auto simp: peek_lru_key_def split: if_splits)
  have "last (lru_items c) \<in> set (lru_items c)" using ne by simp
  then show ?thesis using assms(1) ne t by (auto simp: lru_inv_def)
qed

lemma card_swap_tail:
  assumes "finite A" and "key \<notin> A" and "t \<in> A"
  shows "card (insert key (A - {t})) = card A"
proof -
  have "card (insert key (A - {t})) = Suc (card (A - {t}))"
    using assms(1,2) by simp
  then show ?thesis using card_Suc_Diff1 [OF assms(1,3)] by simp
qed

lemma erase_tail:
  assumes "lru_inv c" and "peek_lru_key c = Some t"
  shows "snd (lru_erase t c) = c\<lparr>lru_items := butlast (lru_items c), lru_map := lru_map c - {t}\<rparr>"
  using peek_in_map [OF assms] assms(1) unlink_last [of "lru_items c"]
  by (simp add: lru_erase_def lru_inv_def)

lemma admit_after_erase:
  assumes inv: "lru_inv c" and new: "key \<notin> lru_map c" and full: "card (lru_map c) = lru_cap c"
    and tail: "peek_lru_key c = Some t"
  shows "lru_put key value (snd (lru_erase t c)) =
           c\<lparr>lru_items := (key, value) # butlast (lru_items c),
             lru_map := insert key (lru_map c - {t})\<rparr>"
proof -
  note p = peek_in_map [OF inv tail]
  have fin: "finite (lru_map c)" using inv by (simp add: lru_inv_def)
  have "card (insert key (lru_map c - {t})) = card (lru_map c)"
    by (rule card_swap_tail [OF fin new p [THEN conjunct1]])
  then show ?thesis
    using new full by (simp add: erase_tail [OF inv tail] lru_put_def Let_def)
qed

text \<open>
  The hypotheses of the admission theorem hold in every state of a shard: the
  constructor establishes them for a non-zero sketch width, and \<open>get\<close>, \<open>put\<close>,
  \<open>erase\<close> and \<open>decay\<close> preserve them.
\<close>

lemma tl_new_ok:
  "w \<noteq> 0 \<Longrightarrow> TinyLFUAdmittingLRU capacity w d = Inr s \<Longrightarrow>
   lru_inv (tl_lru s) \<and> cms_ok (tl_cms s)"
  by (auto simp: TinyLFUAdmittingLRU_def LRUCache_def CountMinSketch_def lru_inv_def cms_ok_def
      list_all_length)

lemma tl_get_inv:
  "lru_inv (tl_lru s) \<Longrightarrow> tl_get hash key s = Some (r, s') \<Longrightarrow> lru_inv (tl_lru s')"
  by (auto simp: tl_get_def lru_inv_get split: option.splits)

lemma tl_put_inv:
  "lru_inv (tl_lru s) \<Longrightarrow> tl_put hash key value s = Some s' \<Longrightarrow> lru_inv (tl_lru s')"
  by (auto simp: tl_put_def lru_inv_put lru_inv_erase split: option.splits if_splits)

lemma tl_erase_inv: "lru_inv (tl_lru s) \<Longrightarrow> lru_inv (tl_lru (snd (tl_erase key s)))"
  by (simp add: tl_erase_def lru_inv_erase)

lemma tl_erase_cms: "tl_cms (snd (tl_erase key s)) = tl_cms s"
  by (simp add: tl_erase_def)

lemma cms_ok_decay: "cms_ok c \<Longrightarrow> cms_ok (cms_decay_half c)"
  by (simp add: cms_ok_def cms_decay_half_def list_all_length)

lemma tl_decay_ok:
  "lru_inv (tl_lru s) \<Longrightarrow> cms_ok (tl_cms s) \<Longrightarrow>
   lru_inv (tl_lru (tl_decay s)) \<and> cms_ok (tl_cms (tl_decay s))"
  by (simp add: tl_decay_def cms_ok_decay)

text \<open>
  C1. A put of a key that is not resident, into a core whose size equals its
  capacity and whose tail is \<open>victim\<close>: the sketch is incremented for the key
  first, the key is resident afterwards exactly when its estimate is at least
  the victim's; then the victim is gone and the key is the head of the recency
  list in front of the other entries in their old order; otherwise the core is
  unchanged.
\<close>

theorem put_at_capacity_admits_iff:
  assumes "lru_inv (tl_lru s)" and "cms_ok (tl_cms s)"
    and "\<not> lru_contains key (tl_lru s)"
    and "lru_size (tl_lru s) = lru_capacity (tl_lru s)"
    and "peek_lru_key (tl_lru s) = Some victim"
  shows "\<exists>cms1 newEst victimEst s'.
           cms_add hash key (tl_cms s) = Some cms1
           \<and> cms_estimate hash key cms1 = Some newEst
           \<and> cms_estimate hash victim cms1 = Some victimEst
           \<and> tl_put hash key value s = Some s' \<and> tl_cms s' = cms1
           \<and> (lru_contains key (tl_lru s') \<longleftrightarrow> newEst \<ge> victimEst)
           \<and> (if newEst \<ge> victimEst
               then \<not> lru_contains victim (tl_lru s')
                    \<and> lru_items (tl_lru s') = (key, value) # butlast (lru_items (tl_lru s))
                    \<and> lru_size (tl_lru s') = lru_size (tl_lru s)
               else tl_lru s' = tl_lru s)"
proof -
  let ?l = "tl_lru s"
  obtain cms1 where cms1: "cms_add hash key (tl_cms s) = Some cms1" "cms_ok cms1"
    using cms_add_rows [OF assms(2), of hash key] by auto
  obtain newEst where n: "cms_estimate hash key cms1 = Some newEst"
    using cms_estimate_Some [OF cms1(2), of hash key] by auto
  obtain victimEst where v: "cms_estimate hash victim cms1 = Some victimEst"
    using cms_estimate_Some [OF cms1(2), of hash victim] by auto
  have new: "key \<notin> lru_map ?l" using assms(3) by (simp add: lru_contains_def)
  have full: "card (lru_map ?l) = lru_cap ?l"
    using assms(4) by (simp add: lru_size_def lru_capacity_def)
  note p = peek_in_map [OF assms(1,5)]
  have kv: "key \<noteq> victim" using new p by auto
  have fin: "finite (lru_map ?l)" using assms(1) by (simp add: lru_inv_def)
  have card: "card (insert key (lru_map ?l - {victim})) = card (lru_map ?l)"
    by (rule card_swap_tail [OF fin new p [THEN conjunct1]])
  have put: "tl_put hash key value s =
               Some \<lparr>tl_lru = (if newEst \<ge> victimEst
                               then ?l\<lparr>lru_items := (key, value) # butlast (lru_items ?l),
                                       lru_map := insert key (lru_map ?l - {victim})\<rparr>
                               else ?l),
                     tl_cms = cms1\<rparr>"
    using cms1(1) n v assms(3,4,5) admit_after_erase [OF assms(1) new full assms(5), of "value"]
    by (simp add: tl_put_def)
  show ?thesis
    using cms1(1) n v put new kv card
    by (auto simp: lru_contains_def lru_size_def)
qed

theorem put_at_capacity_admits_iff_witness:
  "lru_inv (tl_lru example_tl) \<and> cms_ok (tl_cms example_tl)
   \<and> \<not> lru_contains 3 (tl_lru example_tl) \<and> \<not> lru_contains 65 (tl_lru example_tl)
   \<and> lru_size (tl_lru example_tl) = lru_capacity (tl_lru example_tl)
   \<and> peek_lru_key (tl_lru example_tl) = Some 1
   \<and> (\<exists>cms1 s'. cms_add (\<lambda>k. k) 3 (tl_cms example_tl) = Some cms1
         \<and> cms_estimate (\<lambda>k. k) 3 cms1 = Some 1
         \<and> cms_estimate (\<lambda>k. k) 1 cms1 = Some 3
         \<and> tl_put (\<lambda>k. k) 3 ''c'' example_tl = Some s' \<and> tl_cms s' = cms1
         \<and> \<not> lru_contains 3 (tl_lru s') \<and> tl_lru s' = tl_lru example_tl)
   \<and> (\<exists>cms1 s'. cms_add (\<lambda>k. k) 65 (tl_cms example_tl) = Some cms1
         \<and> cms_estimate (\<lambda>k. k) 65 cms1 = Some 4
         \<and> cms_estimate (\<lambda>k. k) 1 cms1 = Some 4
         \<and> tl_put (\<lambda>k. k) 65 ''c'' example_tl = Some s' \<and> tl_cms s' = cms1
         \<and> lru_contains 65 (tl_lru s') \<and> \<not> lru_contains 1 (tl_lru s')
         \<and> lru_items (tl_lru s') = [(65, ''c''), (2, ''b'')])"
proof -
  have h: "lru_inv (tl_lru example_tl)" "cms_ok (tl_cms example_tl)"
    "\<not> lru_contains 3 (tl_lru example_tl)"
    "lru_size (tl_lru example_tl) = lru_capacity (tl_lru example_tl)"
    "peek_lru_key (tl_lru example_tl) = Some 1"
    and h65: "\<not> lru_contains 65 (tl_lru example_tl)"
    by (simp_all add: example_tl_def lru_inv_def cms_ok_def lru_contains_def lru_size_def
        lru_capacity_def peek_lru_key_def)
  have items: "butlast (lru_items (tl_lru example_tl)) = [(2, ''b'')]"
    by (simp add: example_tl_def)
  obtain cms1 newEst victimEst s' where r:
    "cms_add (\<lambda>k. k) 3 (tl_cms example_tl) = Some cms1"
    "cms_estimate (\<lambda>k. k) 3 cms1 = Some newEst"
    "cms_estimate (\<lambda>k. k) 1 cms1 = Some victimEst"
    "tl_put (\<lambda>k. k) 3 ''c'' example_tl = Some s'" "tl_cms s' = cms1"
    "lru_contains 3 (tl_lru s') \<longleftrightarrow> newEst \<ge> victimEst"
    "if newEst \<ge> victimEst
     then \<not> lru_contains 1 (tl_lru s')
          \<and> lru_items (tl_lru s') = (3, ''c'') # butlast (lru_items (tl_lru example_tl))
          \<and> lru_size (tl_lru s') = lru_size (tl_lru example_tl)
     else tl_lru s' = tl_lru example_tl"
    using put_at_capacity_admits_iff [OF h, of "\<lambda>k. k" "''c''"] by blast
  have add: "cms_add (\<lambda>k. k) 3 (tl_cms example_tl) =
               Some \<lparr>cms_width = 16, cms_depth = 2,
                     cms_rows = [[0, 0, 0, 0, 0, 0, 0, 0, 0, 0, 0, 0, 0, 3, 2, 1],
                                 [0, 0, 0, 0, 0, 3, 2, 1, 0, 0, 0, 0, 0, 0, 0, 0]]\<rparr>"
    by (simp add: example_tl_def cms_add_def cms_index_def seeds_def sat_inc_def UINT32_MAX_def
        Let_def upt_conv_Cons)
  have est: "newEst = 1" "victimEst = 3"
    using r(2,3) r(1) [unfolded add]
    by (auto simp: cms_estimate_def cms_index_def seeds_def UINT32_MAX_def Let_def upt_conv_Cons)
  have lt: "\<not> victimEst \<le> newEst" unfolding est by (simp add: word_le_nat_alt)
  have same: "tl_lru s' = tl_lru example_tl" "\<not> lru_contains 3 (tl_lru s')"
    using r(6,7) lt by simp_all
  have rejected: "\<exists>cms1 s'. cms_add (\<lambda>k. k) 3 (tl_cms example_tl) = Some cms1
         \<and> cms_estimate (\<lambda>k. k) 3 cms1 = Some 1
         \<and> cms_estimate (\<lambda>k. k) 1 cms1 = Some 3
         \<and> tl_put (\<lambda>k. k) 3 ''c'' example_tl = Some s' \<and> tl_cms s' = cms1
         \<and> \<not> lru_contains 3 (tl_lru s') \<and> tl_lru s' = tl_lru example_tl"
    using r(1-5) est same by auto
  obtain cms2 newEst2 victimEst2 s2 where q:
    "cms_add (\<lambda>k. k) 65 (tl_cms example_tl) = Some cms2"
    "cms_estimate (\<lambda>k. k) 65 cms2 = Some newEst2"
    "cms_estimate (\<lambda>k. k) 1 cms2 = Some victimEst2"
    "tl_put (\<lambda>k. k) 65 ''c'' example_tl = Some s2" "tl_cms s2 = cms2"
    "lru_contains 65 (tl_lru s2) \<longleftrightarrow> newEst2 \<ge> victimEst2"
    "if newEst2 \<ge> victimEst2
     then \<not> lru_contains 1 (tl_lru s2)
          \<and> lru_items (tl_lru s2) = (65, ''c'') # butlast (lru_items (tl_lru example_tl))
          \<and> lru_size (tl_lru s2) = lru_size (tl_lru example_tl)
     else tl_lru s2 = tl_lru example_tl"
    using put_at_capacity_admits_iff [OF h(1,2) h65 h(4,5), of "\<lambda>k. k" "''c''"] by blast
  have add2: "cms_add (\<lambda>k. k) 65 (tl_cms example_tl) =
               Some \<lparr>cms_width = 16, cms_depth = 2,
                     cms_rows = [[0, 0, 0, 0, 0, 0, 0, 0, 0, 0, 0, 0, 0, 4, 2, 0],
                                 [0, 0, 0, 0, 0, 4, 2, 0, 0, 0, 0, 0, 0, 0, 0, 0]]\<rparr>"
    by (simp add: example_tl_def cms_add_def cms_index_def seeds_def sat_inc_def UINT32_MAX_def
        Let_def upt_conv_Cons)
  have est2: "newEst2 = 4" "victimEst2 = 4"
    using q(2,3) q(1) [unfolded add2]
    by (auto simp: cms_estimate_def cms_index_def seeds_def UINT32_MAX_def Let_def upt_conv_Cons)
  have adm: "lru_contains 65 (tl_lru s2)" "\<not> lru_contains 1 (tl_lru s2)"
    "lru_items (tl_lru s2) = [(65, ''c''), (2, ''b'')]"
    using q(6,7) items unfolding est2 by simp_all
  have admitted: "\<exists>cms1 s'. cms_add (\<lambda>k. k) 65 (tl_cms example_tl) = Some cms1
         \<and> cms_estimate (\<lambda>k. k) 65 cms1 = Some 4
         \<and> cms_estimate (\<lambda>k. k) 1 cms1 = Some 4
         \<and> tl_put (\<lambda>k. k) 65 ''c'' example_tl = Some s' \<and> tl_cms s' = cms1
         \<and> lru_contains 65 (tl_lru s') \<and> \<not> lru_contains 1 (tl_lru s')
         \<and> lru_items (tl_lru s') = [(65, ''c''), (2, ''b'')]"
    using q(1-5) est2 adm by auto
  show ?thesis using h h65 rejected admitted by blast
qed

section \<open>Properties of the predictor\<close>

lemma unat_u32_Suc: "unat (x::u32) + 1 < 2 ^ 32 \<Longrightarrow> unat (x + 1) = unat x + 1"
  by (simp add: unat_word_ariths)

lemma sum_update:
  "sum_list (map (\<lambda>(k, c). unat c) (AList.update k v m))
     + unat (case map_of m k of None \<Rightarrow> 0 | Some c \<Rightarrow> c)
   = sum_list (map (\<lambda>(k, c). unat c) m) + unat (v::u32)"
  by (induction m) auto

lemma entry_le_sum: "map_of m k = Some (c::u32) \<Longrightarrow> unat c \<le> sum_list (map (\<lambda>(k, c). unat c) m)"
  by (induction m) (auto split: if_splits)

lemma sum_counts_observe:
  "sum_counts (observe prev cur s) p + (if p = prev then unat (count_of s prev cur) else 0)
   = sum_counts s p + (if p = prev then unat (count_of s prev cur + 1) else 0)"
proof (cases "p = prev")
  case False
  then show ?thesis by (simp add: sum_counts_def observe_def Let_def update_conv')
next
  case True
  let ?m = "case map_of (mp_trans s) prev of None \<Rightarrow> [] | Some m \<Rightarrow> m"
  have c: "count_of s prev cur = (case map_of ?m cur of None \<Rightarrow> 0 | Some c \<Rightarrow> c)"
    by (simp add: count_of_def split: option.splits)
  have s: "sum_counts s prev = sum_list (map (\<lambda>(k, c). unat c) ?m)"
    by (simp add: sum_counts_def split: option.splits)
  have "sum_counts (observe prev cur s) prev =
          sum_list (map (\<lambda>(k, c). unat c) (AList.update cur (count_of s prev cur + 1) ?m))"
    by (simp add: sum_counts_def observe_def Let_def update_conv' c)
  then show ?thesis
    using True sum_update [of cur "count_of s prev cur + 1" ?m] c s by simp
qed

lemma count_le_sum: "unat (count_of s p k) \<le> sum_counts s p"
  by (auto simp: count_of_def sum_counts_def entry_le_sum split: option.splits)

lemma total_of_observe:
  "total_of (observe prev cur s) p = (if p = prev then total_of s prev + 1 else total_of s p)"
  by (simp add: total_of_def observe_def Let_def update_conv')

lemma count_of_observe:
  "count_of (observe prev cur s) p k =
     (if p = prev \<and> k = cur then count_of s prev cur + 1 else count_of s p k)"
  by (auto simp: count_of_def observe_def Let_def update_conv' split: option.splits)

lemma mp_inv_observe:
  assumes "mp_inv s n" and "Suc n < 2 ^ 32"
  shows "mp_inv (observe prev cur s) (Suc n)"
proof -
  have d: "distinct (map fst (mp_totals (observe prev cur s)))"
    using assms(1) by (simp add: mp_inv_def observe_def Let_def distinct_update)
  have inv: "sum_counts s p \<le> unat (total_of s p)" "unat (total_of s p) \<le> n" for p
    using assms(1) by (simp_all add: mp_inv_def)
  have t1: "unat (total_of s prev + 1) = unat (total_of s prev) + 1"
    using inv(2) [of prev] assms(2) by (intro unat_u32_Suc) simp
  have c1: "unat (count_of s prev cur + 1) = unat (count_of s prev cur) + 1"
    using count_le_sum [of s prev cur] inv [of prev] assms(2) by (intro unat_u32_Suc) simp
  have "sum_counts (observe prev cur s) p \<le> unat (total_of (observe prev cur s) p)
        \<and> unat (total_of (observe prev cur s) p) \<le> Suc n" for p
    using sum_counts_observe [of prev cur s p] inv [of p] t1 c1
    by (auto simp: total_of_observe split: if_splits)
  then show ?thesis using d by (simp add: mp_inv_def)
qed

lemma mp_exact_observe:
  assumes "mp_inv s n" and "Suc n < 2 ^ 32" and "mp_exact s"
  shows "mp_exact (observe prev cur s)"
proof -
  have inv: "sum_counts s p \<le> unat (total_of s p)" "unat (total_of s p) \<le> n" for p
    using assms(1) by (simp_all add: mp_inv_def)
  have ex: "sum_counts s p = unat (total_of s p)" for p
    using assms(3) by (simp add: mp_exact_def)
  have t1: "unat (total_of s prev + 1) = unat (total_of s prev) + 1"
    using inv(2) [of prev] assms(2) by (intro unat_u32_Suc) simp
  have c1: "unat (count_of s prev cur + 1) = unat (count_of s prev cur) + 1"
    using count_le_sum [of s prev cur] inv [of prev] assms(2) by (intro unat_u32_Suc) simp
  have "sum_counts (observe prev cur s) p = unat (total_of (observe prev cur s) p)" for p
    using sum_counts_observe [of prev cur s p] ex [of p] t1 c1
    by (auto simp: total_of_observe split: if_splits)
  then show ?thesis by (simp add: mp_exact_def)
qed

lemma unat_halve: "unat (drop_bit (Suc 0) (c::u32)) = unat c div 2"
  by (simp add: drop_bit_eq_div unat_div)

lemma sum_halve_counts:
  "sum_list (map (\<lambda>(k, c). unat c) (halve_counts m)) \<le> sum_list (map (\<lambda>(k, c). unat c) m) div 2"
proof (induction m)
  case Nil
  then show ?case by (simp add: halve_counts_def)
next
  case (Cons e m)
  obtain k c where e: "e = (k, c)" by (cases e)
  have "sum_list (map (\<lambda>(k, c). unat c) (halve_counts (e # m)))
          = unat (drop_bit 1 c) + sum_list (map (\<lambda>(k, c). unat c) (halve_counts m))"
    by (auto simp: halve_counts_def e)
  moreover have "unat c div 2 + sum_list (map (\<lambda>(k, c). unat c) m) div 2
                   \<le> (unat c + sum_list (map (\<lambda>(k, c). unat c) m)) div 2"
    by arith
  ultimately show ?case using Cons.IH by (simp add: e unat_halve)
qed

lemma keys_halve_counts: "fst ` set (halve_counts m) \<subseteq> fst ` set m"
  by (auto simp: halve_counts_def intro: rev_image_eqI)

lemma distinct_halve_counts: "distinct (map fst m) \<Longrightarrow> distinct (map fst (halve_counts m))"
proof (induction m)
  case Nil
  then show ?case by (simp add: halve_counts_def)
next
  case (Cons e m)
  have "halve_counts (e # m) = halve_counts m \<or> halve_counts (e # m) = (fst e, drop_bit 1 (snd e)) # halve_counts m"
    by (auto simp: halve_counts_def split_beta)
  then show ?case using Cons keys_halve_counts [of m] by auto
qed

lemma map_of_halve_counts:
  "distinct (map fst m) \<Longrightarrow>
   (case map_of (halve_counts m) p of None \<Rightarrow> 0 | Some c \<Rightarrow> c)
     = drop_bit 1 (case map_of m p of None \<Rightarrow> (0::u32) | Some c \<Rightarrow> c)"
proof (induction m)
  case Nil
  then show ?case by (simp add: halve_counts_def)
next
  case (Cons e m)
  obtain k c where e: "e = (k, c)" by (cases e)
  have hc: "halve_counts ((k, c) # m) =
              (if drop_bit 1 c = 0 then halve_counts m else (k, drop_bit 1 c) # halve_counts m)"
    by (simp add: halve_counts_def)
  show ?case
  proof (cases "p = k")
    case False
    then show ?thesis using Cons by (simp add: hc e)
  next
    case True
    have "p \<notin> fst ` set (halve_counts m)"
      using Cons.prems True keys_halve_counts [of m] by (auto simp: e)
    then have "map_of (halve_counts m) p = None" by (simp add: map_of_eq_None_iff)
    then show ?thesis using True by (simp add: hc e)
  qed
qed

lemma total_of_decay:
  "distinct (map fst (mp_totals s)) \<Longrightarrow> total_of (mp_decay_half s) p = drop_bit 1 (total_of s p)"
  using map_of_halve_counts [of "mp_totals s" p] by (simp add: total_of_def mp_decay_half_def)

lemma sum_counts_decay: "sum_counts (mp_decay_half s) p \<le> sum_counts s p div 2"
proof -
  have "map_of (map (\<lambda>(k, mp). (k, halve_counts mp)) (mp_trans s)) p
          = map_option halve_counts (map_of (mp_trans s) p)"
    by (induction "mp_trans s" arbitrary: s) (auto simp: map_of_map)
  then show ?thesis
    by (auto simp: sum_counts_def mp_decay_half_def sum_halve_counts split: option.splits)
qed

lemma mp_inv_decay:
  assumes "mp_inv s n"
  shows "mp_inv (mp_decay_half s) n"
proof -
  have d: "distinct (map fst (mp_totals s))" using assms by (simp add: mp_inv_def)
  have inv: "sum_counts s p \<le> unat (total_of s p)" "unat (total_of s p) \<le> n" for p
    using assms by (simp_all add: mp_inv_def)
  have "sum_counts (mp_decay_half s) p \<le> unat (total_of (mp_decay_half s) p)
        \<and> unat (total_of (mp_decay_half s) p) \<le> n" for p
    using sum_counts_decay [of s p] inv [of p]
    by (simp add: total_of_decay [OF d] unat_halve) arith
  moreover have "distinct (map fst (mp_totals (mp_decay_half s)))"
    using d by (simp add: mp_decay_half_def distinct_halve_counts)
  ultimately show ?thesis by (simp add: mp_inv_def)
qed


lemma mp_inv_fold:
  "mp_inv s n \<Longrightarrow> n + length (filter is_observe ops) < 2 ^ 32 \<Longrightarrow>
   mp_inv (fold mp_step ops s) (n + length (filter is_observe ops))"
proof (induction ops arbitrary: s n)
  case Nil
  then show ?case by simp
next
  case (Cons op ops)
  show ?case
  proof (cases op)
    case (Observe p k)
    have "mp_inv (observe p k s) (Suc n)"
      using Cons.prems Observe by (intro mp_inv_observe) simp_all
    then have "mp_inv (fold mp_step ops (observe p k s)) (Suc n + length (filter is_observe ops))"
      using Cons.prems(2) Observe by (intro Cons.IH) simp_all
    then show ?thesis using Observe by simp
  next
    case Decay
    have "mp_inv (mp_decay_half s) n" using Cons.prems(1) by (rule mp_inv_decay)
    then have "mp_inv (fold mp_step ops (mp_decay_half s)) (n + length (filter is_observe ops))"
      using Cons.prems(2) Decay by (intro Cons.IH) simp_all
    then show ?thesis using Decay by simp
  qed
qed

lemma mp_exact_fold:
  "mp_inv s n \<Longrightarrow> mp_exact s \<Longrightarrow> Decay \<notin> set ops \<Longrightarrow> n + length ops < 2 ^ 32 \<Longrightarrow>
   mp_exact (fold mp_step ops s)"
proof (induction ops arbitrary: s n)
  case Nil
  then show ?case by simp
next
  case (Cons op ops)
  obtain p k where op: "op = Observe p k" using Cons.prems(3) by (cases op) auto
  have "mp_inv (observe p k s) (Suc n)" "mp_exact (observe p k s)"
    using Cons.prems by (auto intro: mp_inv_observe mp_exact_observe)
  then have "mp_exact (fold mp_step ops (observe p k s))"
    using Cons.prems(3,4) by (intro Cons.IH [of _ "Suc n"]) simp_all
  then show ?case using op by simp
qed

lemma mp_inv_new: "mp_inv MarkovPredictor 0"
  by (simp add: mp_inv_def MarkovPredictor_def sum_counts_def total_of_def)

lemma mp_exact_new: "mp_exact MarkovPredictor"
  by (simp add: mp_exact_def MarkovPredictor_def sum_counts_def total_of_def)

lemma no_decay_all_observe: "Decay \<notin> set ops \<Longrightarrow> length (filter is_observe ops) = length ops"
proof (induction ops)
  case Nil
  then show ?case by simp
next
  case (Cons op ops)
  then show ?case by (cases op) auto
qed

text \<open>
  C6, as the code has it. From the empty predictor, after a sequence of observe
  and decay_half calls with fewer than \<open>2 ^ 32\<close> observe calls, the stored counts
  of a predecessor add up to at most its stored total (an absent entry reads
  as 0), and to exactly the total when the sequence has no decay_half.
\<close>

theorem total_bounds_sum_of_counts:
  assumes "length (filter is_observe ops) < 2 ^ 32"
  shows "sum_counts (mp_run ops MarkovPredictor) p \<le> unat (total_of (mp_run ops MarkovPredictor) p)
         \<and> (Decay \<notin> set ops \<longrightarrow>
              sum_counts (mp_run ops MarkovPredictor) p = unat (total_of (mp_run ops MarkovPredictor) p))"
proof -
  have "mp_inv (fold mp_step ops MarkovPredictor) (0 + length (filter is_observe ops))"
    using assms by (intro mp_inv_fold) (simp_all add: mp_inv_new)
  moreover have "mp_exact (fold mp_step ops MarkovPredictor)" if "Decay \<notin> set ops"
    using that assms no_decay_all_observe [OF that]
    by (intro mp_exact_fold [of _ 0]) (simp_all add: mp_inv_new mp_exact_new)
  ultimately show ?thesis by (simp add: mp_run_def mp_inv_def mp_exact_def)
qed

theorem total_bounds_sum_of_counts_witness:
  "length (filter is_observe [Observe (1::nat) 2, Observe 1 2, Observe 1 3, Decay]) < 2 ^ 32
   \<and> sum_counts (mp_run [Observe (1::nat) 2, Observe 1 2, Observe 1 3, Decay] MarkovPredictor) 1 = 1
   \<and> unat (total_of (mp_run [Observe (1::nat) 2, Observe 1 2, Observe 1 3, Decay] MarkovPredictor) 1) = 1
   \<and> length (filter is_observe [Observe (1::nat) 2, Observe 1 3]) < 2 ^ 32
   \<and> Decay \<notin> set [Observe (1::nat) 2, Observe 1 3]
   \<and> sum_counts (mp_run [Observe (1::nat) 2, Observe 1 3] MarkovPredictor) 1 = 2
   \<and> unat (total_of (mp_run [Observe (1::nat) 2, Observe 1 3] MarkovPredictor) 1) = 2"
proof -
  let ?a = "[Observe (1::nat) 2, Observe 1 2, Observe 1 3, Decay]"
  let ?b = "[Observe (1::nat) 2, Observe 1 3]"
  have la: "length (filter is_observe ?a) < 2 ^ 32" and lb: "length (filter is_observe ?b) < 2 ^ 32"
    and nd: "Decay \<notin> set ?b"
    by simp_all
  have ta: "total_of (mp_run ?a MarkovPredictor) 1 = 1"
    by (simp add: mp_run_def MarkovPredictor_def observe_def mp_decay_half_def halve_counts_def
        total_of_def Let_def)
  have sa: "sum_counts (mp_run ?a MarkovPredictor) 1 \<noteq> 0"
    by (simp add: mp_run_def MarkovPredictor_def observe_def mp_decay_half_def halve_counts_def
        sum_counts_def Let_def)
  have tb: "total_of (mp_run ?b MarkovPredictor) 1 = 2"
    by (simp add: mp_run_def MarkovPredictor_def observe_def total_of_def Let_def)
  have "sum_counts (mp_run ?a MarkovPredictor) 1 = 1"
    using total_bounds_sum_of_counts [OF la, of 1] ta sa by simp
  moreover have "sum_counts (mp_run ?b MarkovPredictor) 1 = 2"
    using total_bounds_sum_of_counts [OF lb, of 1] nd tb by simp
  ultimately show ?thesis using la lb nd ta tb by simp
qed

text \<open>
  After three \<open>observe(1, 2)\<close>, one \<open>observe(1, 3)\<close> and \<open>decay_half()\<close> the
  predecessor 1 is in the transition table with the single successor 2 of
  count 1, and its stored total is 2.
\<close>

theorem total_is_sum_of_counts_counterexample:
  "map_of (mp_trans (mp_run [Observe (1::nat) 2, Observe 1 2, Observe 1 2, Observe 1 3, Decay]
                       MarkovPredictor)) 1 = Some [(2, 1)]
   \<and> total_of (mp_run [Observe (1::nat) 2, Observe 1 2, Observe 1 2, Observe 1 3, Decay]
                   MarkovPredictor) 1 = 2
   \<and> sum_counts (mp_run [Observe (1::nat) 2, Observe 1 2, Observe 1 2, Observe 1 3, Decay]
                     MarkovPredictor) 1 = 1"
  by (simp add: mp_run_def MarkovPredictor_def observe_def mp_decay_half_def halve_counts_def
      total_of_def sum_counts_def Let_def)

lemma observes_count:
  "count_of (fold mp_step (replicate n (Observe p k)) s) p k = count_of s p k + of_nat n
   \<and> total_of (fold mp_step (replicate n (Observe p k)) s) p = total_of s p + of_nat n"
  by (induction n arbitrary: s) (simp_all add: count_of_observe total_of_observe)

text \<open>
  C7 on the code. \<open>observe\<close> adds 1 to the count and to the total in 32-bit
  arithmetic. After \<open>2 ^ 32 - 1\<close> calls of \<open>observe(p, k)\<close> on the empty predictor
  both hold \<open>UINT32_MAX\<close>, and one more call leaves both at 0.
\<close>

theorem observe_wraps_at_max:
  "count_of (observe p k s) p k = count_of s p k + 1
   \<and> total_of (observe p k s) p = total_of s p + 1
   \<and> count_of (mp_run (replicate (2 ^ 32 - 1) (Observe p k)) MarkovPredictor) p k = UINT32_MAX
   \<and> total_of (mp_run (replicate (2 ^ 32 - 1) (Observe p k)) MarkovPredictor) p = UINT32_MAX
   \<and> count_of (observe p k (mp_run (replicate (2 ^ 32 - 1) (Observe p k)) MarkovPredictor)) p k = 0
   \<and> total_of (observe p k (mp_run (replicate (2 ^ 32 - 1) (Observe p k)) MarkovPredictor)) p = 0"
proof -
  define n :: nat where "n = 2 ^ 32 - 1"
  have z: "count_of MarkovPredictor p k = 0" "total_of MarkovPredictor p = 0"
    by (simp_all add: count_of_def total_of_def MarkovPredictor_def)
  have m: "(of_nat n :: u32) = UINT32_MAX" by (simp add: n_def UINT32_MAX_def)
  have c: "count_of (mp_run (replicate n (Observe p k)) MarkovPredictor) p k = UINT32_MAX"
    and t: "total_of (mp_run (replicate n (Observe p k)) MarkovPredictor) p = UINT32_MAX"
    using observes_count [of n p k MarkovPredictor] z m by (simp_all add: mp_run_def)
  have w: "UINT32_MAX + 1 = 0" by (simp add: UINT32_MAX_def)
  show ?thesis
    using c t w unfolding n_def [symmetric]
    by (simp add: count_of_observe total_of_observe)
qed

section \<open>Properties of the predictive wrapper\<close>

lemma tl_get_ok:
  assumes "cms_ok (tl_cms sh)"
  shows "\<exists>r sh'. tl_get hash key sh = Some (r, sh') \<and> cms_ok (tl_cms sh')"
  using cms_add_rows [OF assms, of hash key] by (auto simp: tl_get_def)

lemma tl_put_ok:
  assumes "cms_ok (tl_cms sh)"
  shows "\<exists>sh'. tl_put hash key value sh = Some sh' \<and> cms_ok (tl_cms sh')"
proof -
  obtain cms1 where c: "cms_add hash key (tl_cms sh) = Some cms1" "cms_ok cms1"
    using cms_add_rows [OF assms, of hash key] by auto
  have e: "\<exists>e. cms_estimate hash k cms1 = Some e" for k
    using cms_estimate_Some [OF c(2), of hash k] by simp
  show ?thesis
  proof (cases "peek_lru_key (tl_lru sh)")
    case None
    then show ?thesis using c by (simp add: tl_put_def)
  next
    case (Some victim)
    obtain newEst victimEst where
      "cms_estimate hash key cms1 = Some newEst" "cms_estimate hash victim cms1 = Some victimEst"
      using e [of key] e [of victim] by auto
    then show ?thesis using c Some by (simp add: tl_put_def)
  qed
qed

lemma sw_ok_update:
  "sw_ok b \<Longrightarrow> cms_ok (tl_cms sh) \<Longrightarrow> sw_ok (b\<lparr>sw_shards := (sw_shards b)[i := sh]\<rparr>)"
  using set_update_subset_insert [of "sw_shards b" i sh]
  by (auto simp: sw_ok_def list_all_iff)

lemma sw_get_ok:
  assumes "sw_ok b"
  shows "\<exists>r b'. sw_get hash key b = Some (r, b') \<and> sw_ok b'
           \<and> length (sw_shards b') = length (sw_shards b)"
proof -
  let ?i = "unat (hash key) mod length (sw_shards b)"
  have ne: "sw_shards b \<noteq> []" using assms by (simp add: sw_ok_def)
  then have "?i < length (sw_shards b)" by simp
  then have "cms_ok (tl_cms (sw_shards b ! ?i))"
    using assms by (simp add: sw_ok_def list_all_length)
  then obtain r sh' where "tl_get hash key (sw_shards b ! ?i) = Some (r, sh')" "cms_ok (tl_cms sh')"
    using tl_get_ok [of "sw_shards b ! ?i" hash key] by auto
  then show ?thesis using ne sw_ok_update [OF assms] by (simp add: sw_get_def sw_idx_def)
qed

lemma sw_put_ok:
  assumes "sw_ok b"
  shows "\<exists>b'. sw_put hash key value b = Some b' \<and> sw_ok b'
           \<and> length (sw_shards b') = length (sw_shards b)"
proof -
  let ?i = "unat (hash key) mod length (sw_shards b)"
  have ne: "sw_shards b \<noteq> []" using assms by (simp add: sw_ok_def)
  then have "?i < length (sw_shards b)" by simp
  then have "cms_ok (tl_cms (sw_shards b ! ?i))"
    using assms by (simp add: sw_ok_def list_all_length)
  then obtain sh' where "tl_put hash key value (sw_shards b ! ?i) = Some sh'" "cms_ok (tl_cms sh')"
    using tl_put_ok [of "sw_shards b ! ?i" hash key "value"] by auto
  then show ?thesis using ne sw_ok_update [OF assms] by (simp add: sw_put_def sw_idx_def)
qed

lemma prefetch_ok:
  "sw_ok b \<Longrightarrow> \<exists>b'. prefetch hash dflt cand b = Some b' \<and> sw_ok b'
                      \<and> length (sw_shards b') = length (sw_shards b)"
proof (induction cand arbitrary: b)
  case Nil
  then show ?case by simp
next
  case (Cons nxt cand)
  obtain r b1 where g: "sw_get hash nxt b = Some (r, b1)" "sw_ok b1"
      "length (sw_shards b1) = length (sw_shards b)"
    using sw_get_ok [OF Cons.prems, of hash nxt] by auto
  show ?case
  proof (cases r)
    case None
    obtain b2 where p: "sw_put hash nxt dflt b1 = Some b2" "sw_ok b2"
        "length (sw_shards b2) = length (sw_shards b1)"
      using sw_put_ok [OF g(2), of hash nxt dflt] by auto
    then show ?thesis using g None Cons.IH [OF p(2)] by auto
  next
    case (Some v)
    then show ?thesis using g Cons.IH [OF g(2)] by auto
  qed
qed

lemma p_ok_sw_ok: "p_ok s \<Longrightarrow> sw_ok (p_base s)"
  by (auto simp: p_ok_def sw_ok_def)

lemma p_ok_new:
  assumes "opt_shards opt \<noteq> 0"
  shows "\<exists>s. PredictiveShardedCache capacity opt = Inr s \<and> p_ok s \<and> p_opts s = opt
           \<and> p_preds s = replicate (opt_shards opt) MarkovPredictor
           \<and> p_prev s = replicate (opt_shards opt) None"
proof -
  have "cms_ok \<lparr>cms_width = 4096, cms_depth = 4,
                 cms_rows = replicate (unat (4::u64)) (replicate (unat (4096::u64)) 0)\<rparr>"
    by (simp add: cms_ok_def list_all_length)
  then show ?thesis
    using assms
    by (simp add: PredictiveShardedCache_def ShardedWTinyLFU_def build_shards_tl p_ok_def
        list_all_iff)
qed

text \<open>
  C5. In a wrapper of the constructed shape, with \<open>i\<close> the shard of the key:
  \<open>get\<close> returns what the underlying \<open>get\<close> returns on the state before the
  call; the predictor of shard \<open>i\<close> has had \<open>observe(p, key)\<close> applied once when
  the last-key slot held \<open>p\<close> and is unchanged when the slot was empty, and
  the other predictors are unchanged; the slot holds the key afterwards.
  \<open>put\<close> leaves the underlying cache as the underlying \<open>put\<close> does, sets the
  slot to the key and changes no predictor. Both preserve the shape.
\<close>

theorem predictive_get_put:
  assumes "p_ok s"
  shows "\<exists>i. shidx hash key s = Some i \<and> i < opt_shards (p_opts s)
           \<and> (\<exists>r b1 s'. sw_get hash key (p_base s) = Some (r, b1)
                 \<and> p_get hash topk_next dflt key s = Some (r, s') \<and> p_ok s'
                 \<and> p_opts s' = p_opts s
                 \<and> p_preds s' = (case p_prev s ! i of
                                    None \<Rightarrow> p_preds s
                                  | Some p \<Rightarrow> (p_preds s)[i := observe p key (p_preds s ! i)])
                 \<and> p_prev s' = (p_prev s)[i := Some key] \<and> p_prev s' ! i = Some key)
           \<and> (\<exists>b1 s'. sw_put hash key value (p_base s) = Some b1
                 \<and> p_put hash key value s = Some s' \<and> p_ok s'
                 \<and> p_opts s' = p_opts s
                 \<and> p_base s' = b1 \<and> p_preds s' = p_preds s
                 \<and> p_prev s' = (p_prev s)[i := Some key] \<and> p_prev s' ! i = Some key)"
proof -
  let ?n = "opt_shards (p_opts s)"
  let ?i = "unat (hash key) mod ?n"
  let ?preds1 = "case p_prev s ! ?i of
                   None \<Rightarrow> p_preds s
                 | Some p \<Rightarrow> (p_preds s)[?i := observe p key (p_preds s ! ?i)]"
  let ?prev1 = "(p_prev s)[?i := Some key]"
  have n: "?n \<noteq> 0" and lp: "length (p_preds s) = ?n" and lv: "length (p_prev s) = ?n"
    and lb: "length (sw_shards (p_base s)) = ?n"
    using assms by (simp_all add: p_ok_def)
  have i: "?i < ?n" using n by simp
  have idx: "shidx hash key s = Some ?i" using n by (simp add: shidx_def)
  have lp1: "length ?preds1 = ?n" using lp by (simp split: option.splits)
  note ok = p_ok_sw_ok [OF assms]
  have shape: "p_ok (s\<lparr>p_base := b, p_preds := ?preds1, p_prev := ?prev1\<rparr>)"
    if "sw_ok b" and "length (sw_shards b) = ?n" for b
    using that n lp1 lv by (simp add: p_ok_def sw_ok_def)
  obtain r b1 where g: "sw_get hash key (p_base s) = Some (r, b1)" "sw_ok b1"
      "length (sw_shards b1) = length (sw_shards (p_base s))"
    using sw_get_ok [OF ok, of hash key] by auto
  let ?cand = "topk_next (?preds1 ! ?i) key (opt_prefetch_topk (p_opts s))
                 (opt_min_trans_count (p_opts s)) (opt_min_trans_prob (p_opts s))"
  obtain b2 where f: "prefetch hash dflt ?cand b1 = Some b2" "sw_ok b2"
      "length (sw_shards b2) = length (sw_shards b1)"
    using prefetch_ok [OF g(2), of hash dflt ?cand] by auto
  let ?b = "if opt_enable_prefetch (p_opts s) then b2 else b1"
  have get: "p_get hash topk_next dflt key s =
               Some (r, s\<lparr>p_base := ?b, p_preds := ?preds1, p_prev := ?prev1\<rparr>)"
    using idx i lp lv g(1) f(1) by (simp add: p_get_def Let_def)
  have okg: "p_ok (s\<lparr>p_base := ?b, p_preds := ?preds1, p_prev := ?prev1\<rparr>)"
    using shape [of b1] shape [of b2] g(2,3) f(2,3) lb by (simp split: if_splits)
  obtain b3 where p: "sw_put hash key value (p_base s) = Some b3" "sw_ok b3"
      "length (sw_shards b3) = length (sw_shards (p_base s))"
    using sw_put_ok [OF ok, of hash key "value"] by auto
  have put: "p_put hash key value s = Some (s\<lparr>p_base := b3, p_prev := ?prev1\<rparr>)"
    using idx i lv p(1) by (simp add: p_put_def)
  have okp: "p_ok (s\<lparr>p_base := b3, p_prev := ?prev1\<rparr>)"
    using p(2,3) n lp lv lb by (simp add: p_ok_def sw_ok_def)
  have at: "?prev1 ! ?i = Some key" using i lv by simp
  show ?thesis
    using idx i g(1) get okg p(1) put okp at by simp
qed

theorem predictive_get_put_witness:
  "\<exists>s0 s1 r b s2. PredictiveShardedCache 4 example_opts = Inr s0 \<and> p_ok s0
      \<and> p_put (\<lambda>k::u64. k) 2 ''a'' s0 = Some s1 \<and> p_ok s1
      \<and> p_preds s1 = [MarkovPredictor, MarkovPredictor] \<and> p_prev s1 = [Some 2, None]
      \<and> sw_get (\<lambda>k. k) 4 (p_base s1) = Some (r, b)
      \<and> p_get (\<lambda>k. k) (\<lambda>m cur topk cnt prob. [6]) ''-'' 4 s1 = Some (r, s2)
      \<and> p_preds s2 = [observe 2 4 MarkovPredictor, MarkovPredictor]
      \<and> p_prev s2 = [Some 4, None]"
proof -
  let ?h = "\<lambda>k::u64. k"
  let ?t = "\<lambda>(m::u64 MarkovPredictor) (cur::u64) (topk::nat) (cnt::u32) (prob::unit). [6::u64]"
  have two: "opt_shards example_opts = 2" by (simp add: example_opts_def)
  obtain s0 :: "(u64, string, unit) PredictiveShardedCache" where
    s0: "PredictiveShardedCache 4 example_opts = Inr s0" "p_ok s0" "p_opts s0 = example_opts"
      "p_preds s0 = replicate (opt_shards example_opts) MarkovPredictor"
      "p_prev s0 = replicate (opt_shards example_opts) None"
    using p_ok_new [of example_opts 4] two by auto
  have i0: "shidx ?h 2 s0 = Some 0" by (simp add: shidx_def s0(3) two)
  obtain s1 where s1: "p_put ?h 2 ''a'' s0 = Some s1" "p_ok s1" "p_opts s1 = p_opts s0"
      "p_preds s1 = p_preds s0" "p_prev s1 = (p_prev s0)[0 := Some 2]"
    using predictive_get_put [OF s0(2), of ?h 2 ?t "''-''" "''a''"] i0 by auto
  have v1: "p_prev s1 = [Some 2, None]" and d1: "p_preds s1 = [MarkovPredictor, MarkovPredictor]"
    using s1(4,5) s0(4,5) two by (simp_all add: numeral_2_eq_2)
  have i1: "shidx ?h 4 s1 = Some 0" by (simp add: shidx_def s1(3) s0(3) two)
  obtain r b s2 where s2: "sw_get ?h 4 (p_base s1) = Some (r, b)"
      "p_get ?h ?t ''-'' 4 s1 = Some (r, s2)"
      "p_preds s2 = (case p_prev s1 ! 0 of
                       None \<Rightarrow> p_preds s1
                     | Some p \<Rightarrow> (p_preds s1)[0 := observe p 4 (p_preds s1 ! 0)])"
      "p_prev s2 = (p_prev s1)[0 := Some 4]"
    using predictive_get_put [OF s1(2), of ?h 4 ?t "''-''" "''a''"] i1 by auto
  have "p_preds s2 = [observe 2 4 MarkovPredictor, MarkovPredictor]" "p_prev s2 = [Some 4, None]"
    using s2(3,4) v1 d1 by simp_all
  then show ?thesis using s0(1,2) s1(1,2) v1 d1 s2(1,2) by blast
qed

end
